theory Spec2Isabelle
  imports Main
begin

section \<open>The exit-stack page: data\<close>

text \<open>
  A shallow embedding of \<^verbatim>\<open>apps/frontend/src/pages/exit/ExitOutPage.jsx\<close>. The
  component keeps seven \<^verbatim>\<open>useState\<close> cells; its three asynchronous handlers
  (\<^verbatim>\<open>fetchStack\<close>, \<^verbatim>\<open>releaseTeam\<close>, \<^verbatim>\<open>clearStack\<close>) are cut at every
  \<^verbatim>\<open>await\<close> into segments that run to completion on the single UI thread. A
  segment is a function on the world (component state plus the timers, the requests in
  flight and the log of \<^verbatim>\<open>api\<close> calls); the event loop is the function \<open>step\<close>.
\<close>

subsection \<open>Stack entries, statistics, toasts\<close>

text \<open>
  The numbers of the backend's JSON are non-negative integers (cards and teams are
  counted), so they are \<open>nat\<close>; identifiers are strings.
\<close>

record stack_entry =
  registrationId :: string
  cardCount :: nat
  cards :: "string list"

record stats_t =
  totalTeams :: nat
  totalCards :: nat

datatype toast_type = Type_info | Type_success | Type_error

record toast_t =
  message :: string
  toast_type :: toast_type

text \<open>The seven state cells, in the order of the \<^verbatim>\<open>useState\<close> calls.\<close>

record state =
  stack :: "stack_entry list"
  stats :: stats_t
  loading :: bool
  releasing :: "string set"
  toast :: "toast_t option"
  autoRefresh :: bool
  confirmingId :: "string option"

definition initial_state :: state where
  "initial_state =
     \<lparr>stack = [], stats = \<lparr>totalTeams = 0, totalCards = 0\<rparr>, loading = True,
      releasing = {}, toast = None, autoRefresh = True, confirmingId = None\<rparr>"

subsection \<open>Backend replies\<close>

text \<open>
  What \<^verbatim>\<open>await api(...)\<close> produces. The promise is rejected (\<open>Rejected\<close>), or it
  resolves: to \<^verbatim>\<open>null\<close>/\<^verbatim>\<open>undefined\<close> (\<open>Resolved None\<close>, every property read
  of which is a TypeError), or to an object. The three endpoints answer with objects of
  one shape in which every property but \<^verbatim>\<open>success\<close> may be missing (\<open>None\<close>);
  \<open>success\<close> is the truthiness of the property, a missing one being falsy.
\<close>

record release_result =
  released :: "nat option"

record response =
  success :: bool
  stack_field :: "stack_entry list option"
  stats_field :: "stats_t option"
  result_field :: "release_result option"
  error_field :: "string option"

datatype api_outcome = Rejected | Resolved "response option"

datatype request = GET_stack | POST_release string | POST_clear

datatype exn = Rejection | TypeError

subsection \<open>The world around the component\<close>

text \<open>
  An asynchronous function that is suspended at an \<^verbatim>\<open>await\<close> is a task. A
  \<^verbatim>\<open>fetchStack\<close> that was started by \<^verbatim>\<open>await fetchStack()\<close> inside
  \<^verbatim>\<open>releaseTeam\<close> or \<^verbatim>\<open>clearStack\<close> remembers who waits for it.
\<close>

datatype waiter = Nobody | Then_release string | Then_clear

datatype task = Await_stack waiter | Await_release string | Await_clear

datatype status = Returned | Thrown exn | Awaiting task

datatype lifecycle = Fresh | Mounted | Gone

text \<open>
  \<open>now\<close> is the clock in milliseconds. \<open>timeouts\<close> holds the due times of the pending
  \<^verbatim>\<open>setTimeout(() => setToast(null), 5000)\<close> callbacks (they are never cancelled),
  \<open>intervals\<close> the identifier and next due time of every live
  \<^verbatim>\<open>setInterval(fetchStack, 3000)\<close>, \<open>cleanup\<close> the interval identifier that the
  clean-up closure returned by the last run of the effect holds, \<open>pending\<close> the suspended
  tasks, \<open>calls\<close> every call of \<^verbatim>\<open>api\<close> so far, and \<open>unhandled\<close> the exceptions
  that left a handler.
\<close>

record world =
  comp :: state
  phase :: lifecycle
  now :: nat
  timeouts :: "nat list"
  intervals :: "(nat \<times> nat) list"
  next_id :: nat
  cleanup :: "nat option"
  pending :: "task list"
  calls :: "request list"
  unhandled :: "exn list"

definition initial :: world where
  "initial =
     \<lparr>comp = initial_state, phase = Fresh, now = 0, timeouts = [], intervals = [],
      next_id = 0, cleanup = None, pending = [], calls = [], unhandled = []\<rparr>"

subsection \<open>State setters\<close>

definition setStack :: "stack_entry list \<Rightarrow> world \<Rightarrow> world" where
  "setStack v w = w\<lparr>comp := (comp w)\<lparr>stack := v\<rparr>\<rparr>"

definition setStats :: "stats_t \<Rightarrow> world \<Rightarrow> world" where
  "setStats v w = w\<lparr>comp := (comp w)\<lparr>stats := v\<rparr>\<rparr>"

definition setLoading :: "bool \<Rightarrow> world \<Rightarrow> world" where
  "setLoading v w = w\<lparr>comp := (comp w)\<lparr>loading := v\<rparr>\<rparr>"

definition setReleasing :: "(string set \<Rightarrow> string set) \<Rightarrow> world \<Rightarrow> world" where
  "setReleasing f w = w\<lparr>comp := (comp w)\<lparr>releasing := f (releasing (comp w))\<rparr>\<rparr>"

definition setToast :: "toast_t option \<Rightarrow> world \<Rightarrow> world" where
  "setToast v w = w\<lparr>comp := (comp w)\<lparr>toast := v\<rparr>\<rparr>"

definition setAutoRefresh :: "bool \<Rightarrow> world \<Rightarrow> world" where
  "setAutoRefresh v w = w\<lparr>comp := (comp w)\<lparr>autoRefresh := v\<rparr>\<rparr>"

definition api :: "request \<Rightarrow> world \<Rightarrow> world" where
  "api r w = w\<lparr>calls := calls w @ [r]\<rparr>"

subsection \<open>Text of template literals\<close>

text \<open>
  Decimal digits of a number, as a template literal and React print a non-negative
  integer below \<open>10\<^sup>2\<^sup>1\<close> (from there on JavaScript prints an exponent; counts of
  cards and teams stay far below). No statement below depends on the digits.
\<close>

function show_nat :: "nat \<Rightarrow> string" where
  "show_nat n =
     (if n < 10 then [char_of (48 + n)]
      else show_nat (n div 10) @ [char_of (48 + n mod 10)])"
  by pat_completeness auto
termination
  by (relation "measure id") auto

declare show_nat.simps [simp del]

definition show_released :: "nat option \<Rightarrow> string" where
  "show_released v = (case v of None \<Rightarrow> ''undefined'' | Some n \<Rightarrow> show_nat n)"

definition show_error :: "string option \<Rightarrow> string" where
  "show_error v = (case v of None \<Rightarrow> ''undefined'' | Some e \<Rightarrow> e)"

section \<open>The handlers\<close>

text \<open>
  The calls of \<^verbatim>\<open>console.error\<close> write to the console only and are left out. The
  cell \<^verbatim>\<open>confirmingId\<close> is written only inside the JSX block that is commented
  out, so no handler touches it.
\<close>

subsection \<open>showToast\<close>

definition toast_delay :: nat where
  "toast_delay = 5000"

definition showToast :: "string \<Rightarrow> toast_type \<Rightarrow> world \<Rightarrow> world" where
  "showToast m ty w =
     (setToast (Some \<lparr>message = m, toast_type = ty\<rparr>) w)
       \<lparr>timeouts := timeouts w @ [now w + toast_delay]\<rparr>"

subsection \<open>try, catch, finally\<close>

text \<open>
  A segment ends in a status: it returned, it threw, or it is suspended at the next
  \<^verbatim>\<open>await\<close>. A \<^verbatim>\<open>catch\<close> clause runs on a throw; a \<^verbatim>\<open>finally\<close> clause runs
  when the block is left, not when it is suspended. In every \<^verbatim>\<open>try\<close> block of the
  file the throwing expressions (the \<^verbatim>\<open>await\<close> and the property reads) are evaluated
  before the first state write of their segment, so a throw carries the world the
  segment started with.
\<close>

definition catch_with :: "(exn \<Rightarrow> world \<Rightarrow> status \<times> world) \<Rightarrow> status \<times> world \<Rightarrow> status \<times> world" where
  "catch_with h r = (case r of (Thrown e, w) \<Rightarrow> h e w | _ \<Rightarrow> r)"

definition finally_with :: "(world \<Rightarrow> world) \<Rightarrow> status \<times> world \<Rightarrow> status \<times> world" where
  "finally_with f r = (case r of (Awaiting t, w) \<Rightarrow> (Awaiting t, w) | (s, w) \<Rightarrow> (s, f w))"

subsection \<open>fetchStack\<close>

definition fetchStack_begin :: "waiter \<Rightarrow> world \<Rightarrow> status \<times> world" where
  "fetchStack_begin k w = (Awaiting (Await_stack k), api GET_stack w)"

definition fetchStack_try :: "api_outcome \<Rightarrow> world \<Rightarrow> status \<times> world" where
  "fetchStack_try out w =
     (case out of
        Rejected \<Rightarrow> (Thrown Rejection, w)
      | Resolved None \<Rightarrow> (Thrown TypeError, w)
      | Resolved (Some r) \<Rightarrow>
          if success r then
            (Returned,
             setStats (case stats_field r of Some st \<Rightarrow> st
                       | None \<Rightarrow> \<lparr>totalTeams = 0, totalCards = 0\<rparr>)
               (setStack (case stack_field r of Some xs \<Rightarrow> xs | None \<Rightarrow> []) w))
          else (Returned, showToast ''Failed to fetch stack data'' Type_error w))"

definition fetchStack_catch :: "exn \<Rightarrow> world \<Rightarrow> status \<times> world" where
  "fetchStack_catch e w = (Returned, showToast ''Error connecting to server'' Type_error w)"

definition fetchStack_finally :: "world \<Rightarrow> world" where
  "fetchStack_finally w = setLoading False w"

definition fetchStack_resume :: "api_outcome \<Rightarrow> world \<Rightarrow> status \<times> world" where
  "fetchStack_resume out w =
     finally_with fetchStack_finally (catch_with fetchStack_catch (fetchStack_try out w))"

subsection \<open>releaseTeam\<close>

definition releaseTeam_begin :: "string \<Rightarrow> world \<Rightarrow> status \<times> world" where
  "releaseTeam_begin rid w =
     (Awaiting (Await_release rid),
      api (POST_release rid) (setReleasing (\<lambda>prev. prev \<union> {rid}) w))"

definition releaseTeam_try :: "string \<Rightarrow> api_outcome \<Rightarrow> world \<Rightarrow> status \<times> world" where
  "releaseTeam_try rid out w =
     (case out of
        Rejected \<Rightarrow> (Thrown Rejection, w)
      | Resolved None \<Rightarrow> (Thrown TypeError, w)
      | Resolved (Some r) \<Rightarrow>
          if success r then
            (case result_field r of
               None \<Rightarrow> (Thrown TypeError, w)
             | Some res \<Rightarrow>
                 fetchStack_begin (Then_release rid)
                   (showToast
                      (''Successfully released '' @ show_released (released res)
                         @ '' cards for team '' @ rid)
                      Type_success w))
          else
            (Returned,
             showToast (''Failed to release team '' @ rid @ '': '' @ show_error (error_field r))
               Type_error w))"

definition releaseTeam_catch :: "string \<Rightarrow> exn \<Rightarrow> world \<Rightarrow> status \<times> world" where
  "releaseTeam_catch rid e w =
     (Returned, showToast (''Error releasing team '' @ rid) Type_error w)"

definition releaseTeam_finally :: "string \<Rightarrow> world \<Rightarrow> world" where
  "releaseTeam_finally rid w = setReleasing (\<lambda>prev. prev - {rid}) w"

definition releaseTeam_resume :: "string \<Rightarrow> api_outcome \<Rightarrow> world \<Rightarrow> status \<times> world" where
  "releaseTeam_resume rid out w =
     finally_with (releaseTeam_finally rid)
       (catch_with (releaseTeam_catch rid) (releaseTeam_try rid out w))"

text \<open>
  The rest of \<^verbatim>\<open>releaseTeam\<close> once the awaited \<^verbatim>\<open>fetchStack()\<close> has settled: a
  rejection of that promise would be thrown inside the \<^verbatim>\<open>try\<close> block.
\<close>

definition releaseTeam_after_fetch :: "string \<Rightarrow> status \<times> world \<Rightarrow> status \<times> world" where
  "releaseTeam_after_fetch rid r =
     finally_with (releaseTeam_finally rid) (catch_with (releaseTeam_catch rid) r)"

subsection \<open>clearStack\<close>

text \<open>The first argument is the answer of \<^verbatim>\<open>window.confirm\<close>.\<close>

definition clearStack_begin :: "bool \<Rightarrow> world \<Rightarrow> status \<times> world" where
  "clearStack_begin confirmed w =
     (if \<not> confirmed then (Returned, w)
      else (Awaiting Await_clear, api POST_clear (setLoading True w)))"

definition clearStack_try :: "api_outcome \<Rightarrow> world \<Rightarrow> status \<times> world" where
  "clearStack_try out w =
     (case out of
        Rejected \<Rightarrow> (Thrown Rejection, w)
      | Resolved None \<Rightarrow> (Thrown TypeError, w)
      | Resolved (Some r) \<Rightarrow>
          if success r then
            fetchStack_begin Then_clear (showToast ''Stack cleared successfully'' Type_success w)
          else
            (Returned,
             showToast (''Failed to clear stack: '' @ show_error (error_field r)) Type_error w))"

definition clearStack_catch :: "exn \<Rightarrow> world \<Rightarrow> status \<times> world" where
  "clearStack_catch e w = (Returned, showToast ''Error clearing stack'' Type_error w)"

definition clearStack_finally :: "world \<Rightarrow> world" where
  "clearStack_finally w = setLoading False w"

definition clearStack_resume :: "api_outcome \<Rightarrow> world \<Rightarrow> status \<times> world" where
  "clearStack_resume out w =
     finally_with clearStack_finally (catch_with clearStack_catch (clearStack_try out w))"

definition clearStack_after_fetch :: "status \<times> world \<Rightarrow> status \<times> world" where
  "clearStack_after_fetch r =
     finally_with clearStack_finally (catch_with clearStack_catch r)"

subsection \<open>Resuming a task\<close>

fun after_fetch :: "waiter \<Rightarrow> status \<times> world \<Rightarrow> status \<times> world" where
  "after_fetch Nobody r = r"
| "after_fetch (Then_release rid) r = releaseTeam_after_fetch rid r"
| "after_fetch Then_clear r = clearStack_after_fetch r"

fun resume :: "task \<Rightarrow> api_outcome \<Rightarrow> world \<Rightarrow> status \<times> world" where
  "resume (Await_stack k) out w = after_fetch k (fetchStack_resume out w)"
| "resume (Await_release rid) out w = releaseTeam_resume rid out w"
| "resume Await_clear out w = clearStack_resume out w"

section \<open>Rendering\<close>

text \<open>
  The cell \<^verbatim>\<open>Average Cards per Team\<close> shows either the string \<^verbatim>\<open>'0'\<close> or
  \<^verbatim>\<open>(stats.totalCards / stats.totalTeams).toFixed(1)\<close>. The cell keeps the two
  operands of the division it performed; the digits that \<^verbatim>\<open>toFixed\<close> prints of a
  double are not computed.
\<close>

datatype average_cell = Literal string | Quotient_to_fixed nat nat nat

fun division_by_zero :: "average_cell \<Rightarrow> bool" where
  "division_by_zero (Literal s) = False"
| "division_by_zero (Quotient_to_fixed dividend divisor digits) = (divisor = 0)"

fun divides :: "average_cell \<Rightarrow> bool" where
  "divides (Literal s) = False"
| "divides (Quotient_to_fixed dividend divisor digits) = True"

definition average_cards :: "stats_t \<Rightarrow> average_cell" where
  "average_cards st =
     (if totalCards st > 0 then Quotient_to_fixed (totalCards st) (totalTeams st) 1
      else Literal ''0'')"

text \<open>One row of the list \<^verbatim>\<open>Teams in Stack\<close>.\<close>

record row =
  row_id :: string
  row_count :: string
  row_badges :: "string list"
  row_more :: "string option"
  release_disabled :: bool
  release_label :: string

definition render_row :: "string set \<Rightarrow> stack_entry \<Rightarrow> row" where
  "render_row rel item =
     \<lparr>row_id = registrationId item,
      row_count = show_nat (cardCount item) @ '' cards stacked'',
      row_badges = take 3 (cards item),
      row_more =
        (if length (cards item) > 3
         then Some (''+'' @ show_nat (length (cards item) - 3) @ '' more'') else None),
      release_disabled = (registrationId item \<in> rel),
      release_label =
        (if registrationId item \<in> rel then ''Releasing...'' else ''Release All'')\<rparr>"

record page =
  teams_shown :: nat
  cards_shown :: nat
  average_shown :: average_cell
  checkbox_checked :: bool
  refresh_disabled :: bool
  refresh_label :: string
  clear_disabled :: bool
  rows :: "row list"
  toast_shown :: "string option"

datatype view = Loader_view | Page page

text \<open>
  The early return shows only the loader; otherwise the page. An empty \<open>rows\<close> stands
  for the card \<^verbatim>\<open>No Cards in ExitOut Stack\<close>.
\<close>

definition render :: "state \<Rightarrow> view" where
  "render s =
     (if loading s \<and> length (stack s) = 0 then Loader_view
      else Page
        \<lparr>teams_shown = totalTeams (stats s),
         cards_shown = totalCards (stats s),
         average_shown = average_cards (stats s),
         checkbox_checked = autoRefresh s,
         refresh_disabled = loading s,
         refresh_label = (if loading s then ''Refreshing...'' else ''Refresh''),
         clear_disabled = (loading s \<or> totalCards (stats s) = 0),
         rows = map (render_row (releasing s)) (stack s),
         toast_shown = map_option message (toast s)\<rparr>)"

section \<open>The event loop\<close>

subsection \<open>Timers and the effect\<close>

definition refresh_period :: nat where
  "refresh_period = 3000"

definition setInterval_fetchStack :: "world \<Rightarrow> nat \<times> world" where
  "setInterval_fetchStack w =
     (next_id w,
      w\<lparr>intervals := intervals w @ [(next_id w, now w + refresh_period)],
        next_id := Suc (next_id w)\<rparr>)"

definition clearInterval :: "nat \<Rightarrow> world \<Rightarrow> world" where
  "clearInterval i w = w\<lparr>intervals := filter (\<lambda>p. fst p \<noteq> i) (intervals w)\<rparr>"

text \<open>
  A handler called without \<^verbatim>\<open>await\<close> (from the effect, a timer or a click): its
  promise floats. A suspended one joins the pending tasks; a throw would be an unhandled
  rejection.
\<close>

definition spawn :: "status \<times> world \<Rightarrow> world" where
  "spawn r =
     (case r of
        (Awaiting t, w) \<Rightarrow> w\<lparr>pending := pending w @ [t]\<rparr>
      | (Returned, w) \<Rightarrow> w
      | (Thrown e, w) \<Rightarrow> w\<lparr>unhandled := unhandled w @ [e]\<rparr>)"

text \<open>The body of the effect, and the clean-up closure its last run returned.\<close>

definition effect :: "world \<Rightarrow> world" where
  "effect w =
     (let w1 = spawn (fetchStack_begin Nobody w) in
      if autoRefresh (comp w1) then
        (case setInterval_fetchStack w1 of (i, w2) \<Rightarrow> w2\<lparr>cleanup := Some i\<rparr>)
      else w1\<lparr>cleanup := None\<rparr>)"

definition run_cleanup :: "world \<Rightarrow> world" where
  "run_cleanup w = (case cleanup w of None \<Rightarrow> w | Some i \<Rightarrow> (clearInterval i w)\<lparr>cleanup := None\<rparr>)"

subsection \<open>Events\<close>

text \<open>
  What can happen to the page: React mounts and unmounts it, the user clicks a control
  that is rendered and enabled, a request in flight settles, time passes, a timer fires.
  Time cannot pass a timer that is due.
\<close>

datatype event =
    Mount
  | Unmount
  | Click_refresh
  | Click_clear bool
  | Click_release string
  | Change_checkbox bool
  | Close_toast
  | Reply nat api_outcome
  | Advance nat
  | Timeout_fires nat
  | Interval_fires nat

definition shown :: "world \<Rightarrow> page option" where
  "shown w =
     (if phase w = Mounted then (case render (comp w) of Loader_view \<Rightarrow> None | Page p \<Rightarrow> Some p)
      else None)"

definition settle :: "nat \<Rightarrow> status \<times> world \<Rightarrow> world" where
  "settle i r =
     (case r of
        (Awaiting t, w) \<Rightarrow> w\<lparr>pending := (pending w)[i := t]\<rparr>
      | (Returned, w) \<Rightarrow> w\<lparr>pending := take i (pending w) @ drop (Suc i) (pending w)\<rparr>
      | (Thrown e, w) \<Rightarrow>
          w\<lparr>pending := take i (pending w) @ drop (Suc i) (pending w),
            unhandled := unhandled w @ [e]\<rparr>)"

fun step :: "event \<Rightarrow> world \<Rightarrow> world option" where
  "step Mount w = (if phase w = Fresh then Some (effect (w\<lparr>phase := Mounted\<rparr>)) else None)"
| "step Unmount w =
     (if phase w = Mounted then Some ((run_cleanup w)\<lparr>phase := Gone\<rparr>) else None)"
| "step Click_refresh w =
     (case shown w of
        Some p \<Rightarrow> if refresh_disabled p then None else Some (spawn (fetchStack_begin Nobody w))
      | None \<Rightarrow> None)"
| "step (Click_clear confirmed) w =
     (case shown w of
        Some p \<Rightarrow> if clear_disabled p then None else Some (spawn (clearStack_begin confirmed w))
      | None \<Rightarrow> None)"
| "step (Click_release rid) w =
     (case shown w of
        Some p \<Rightarrow>
          if list_ex (\<lambda>r. row_id r = rid \<and> \<not> release_disabled r) (rows p)
          then Some (spawn (releaseTeam_begin rid w)) else None
      | None \<Rightarrow> None)"
| "step (Change_checkbox checked) w =
     (case shown w of
        Some p \<Rightarrow>
          if checked = autoRefresh (comp w) then Some w
          else Some (effect (run_cleanup (setAutoRefresh checked w)))
      | None \<Rightarrow> None)"
| "step Close_toast w =
     (case shown w of
        Some p \<Rightarrow> if toast_shown p = None then None else Some (setToast None w)
      | None \<Rightarrow> None)"
| "step (Reply i out) w =
     (if i < length (pending w) then Some (settle i (resume (pending w ! i) out w)) else None)"
| "step (Advance d) w =
     (if list_all (\<lambda>due. now w + d \<le> due) (timeouts w @ map snd (intervals w))
      then Some (w\<lparr>now := now w + d\<rparr>) else None)"
| "step (Timeout_fires i) w =
     (if i < length (timeouts w) \<and> timeouts w ! i \<le> now w
      then Some ((setToast None w)\<lparr>timeouts := take i (timeouts w) @ drop (Suc i) (timeouts w)\<rparr>)
      else None)"
| "step (Interval_fires i) w =
     (case map_of (intervals w) i of
        Some due \<Rightarrow>
          if due \<le> now w then
            Some (spawn (fetchStack_begin Nobody
                    (w\<lparr>intervals := map (\<lambda>p. if fst p = i then (i, due + refresh_period) else p)
                                      (intervals w)\<rparr>)))
          else None
      | None \<Rightarrow> None)"

fun run :: "event list \<Rightarrow> world \<Rightarrow> world option" where
  "run [] w = Some w"
| "run (e # es) w = (case step e w of None \<Rightarrow> None | Some w' \<Rightarrow> run es w')"

subsection \<open>A handler run from its call to its end\<close>

text \<open>
  With nothing else happening in between, a handler runs from its call to its end once
  the replies to its requests are known: \<open>out\<close> answers the request the handler makes
  itself, \<open>out'\<close> the request of the \<^verbatim>\<open>fetchStack()\<close> it awaits, when it gets there.
\<close>

definition then_reply :: "status \<times> world \<Rightarrow> api_outcome \<Rightarrow> status \<times> world" where
  "then_reply r out = (case r of (Awaiting t, w) \<Rightarrow> resume t out w | _ \<Rightarrow> r)"

definition fetchStack :: "api_outcome \<Rightarrow> world \<Rightarrow> status \<times> world" where
  "fetchStack out w = then_reply (fetchStack_begin Nobody w) out"

definition releaseTeam :: "string \<Rightarrow> api_outcome \<Rightarrow> api_outcome \<Rightarrow> world \<Rightarrow> status \<times> world" where
  "releaseTeam rid out out' w = then_reply (then_reply (releaseTeam_begin rid w) out) out'"

definition clearStack :: "bool \<Rightarrow> api_outcome \<Rightarrow> api_outcome \<Rightarrow> world \<Rightarrow> status \<times> world" where
  "clearStack confirmed out out' w =
     then_reply (then_reply (clearStack_begin confirmed w) out) out'"

section \<open>Observations and concrete inputs\<close>


text \<open>A reply that is not an object with a truthy \<^verbatim>\<open>success\<close>.\<close>

definition failed :: "api_outcome \<Rightarrow> bool" where
  "failed out = (case out of Rejected \<Rightarrow> True | Resolved None \<Rightarrow> True
                 | Resolved (Some r) \<Rightarrow> \<not> success r)"

definition bare :: "bool \<Rightarrow> response" where
  "bare ok = \<lparr>success = ok, stack_field = None, stats_field = None, result_field = None,
              error_field = None\<rparr>"

definition team_T1 :: stack_entry where
  "team_T1 = \<lparr>registrationId = ''T1'', cardCount = 4, cards = [''C1'', ''C2'', ''C3'', ''C4'']\<rparr>"

definition one_team :: response where
  "one_team = (bare True)\<lparr>stack_field := Some [team_T1],
                          stats_field := Some \<lparr>totalTeams = 1, totalCards = 4\<rparr>\<rparr>"

definition two_teams :: response where
  "two_teams = (bare True)\<lparr>stack_field := Some [team_T1, team_T1\<lparr>registrationId := ''T2''\<rparr>],
                          stats_field := Some \<lparr>totalTeams = 2, totalCards = 8\<rparr>\<rparr>"

definition idle_trace :: "event list" where
  "idle_trace = [Mount, Reply 0 (Resolved (Some one_team))]"

definition busy_trace :: "event list" where
  "busy_trace =
     [Mount, Reply 0 (Resolved (Some two_teams)), Click_release ''T1'', Click_release ''T2'',
      Reply 0 (Resolved (Some (bare False)))]"

text \<open>
  The team whose \<^verbatim>\<open>releaseTeam\<close> a suspended task belongs to: the handler waits
  for its own request, or for the \<^verbatim>\<open>fetchStack()\<close> it awaits after a successful
  release. This is the running handler, which is more than the release request in
  flight (\<open>release_request_of\<close> below).
\<close>

fun release_of :: "task \<Rightarrow> string option" where
  "release_of (Await_release rid) = Some rid"
| "release_of (Await_stack (Then_release rid)) = Some rid"
| "release_of t = None"

definition in_flight :: "task list \<Rightarrow> string list" where
  "in_flight ts = List.map_filter release_of ts"

text \<open>
  The interval of the auto-refresh, as the life cycle keeps it: none before the mount and
  after the unmount; while mounted exactly the one the clean-up closure holds when
  auto-refresh is on, and none when it is off. No timer is overdue.
\<close>

definition timers_ok :: "world \<Rightarrow> bool" where
  "timers_ok w =
     (list_all (\<lambda>due. now w \<le> due) (timeouts w @ map snd (intervals w))
      \<and> map fst (intervals w) = (case cleanup w of None \<Rightarrow> [] | Some i \<Rightarrow> [i])
      \<and> (phase w = Mounted \<longrightarrow> (cleanup w \<noteq> None) = autoRefresh (comp w))
      \<and> (phase w \<noteq> Mounted \<longrightarrow> cleanup w = None))"

text \<open>
  The busy set is the set of the teams whose \<^verbatim>\<open>releaseTeam\<close> is suspended, and no
  team is being released twice.
\<close>

definition busy_ok :: "world \<Rightarrow> bool" where
  "busy_ok w =
     (releasing (comp w) = set (in_flight (pending w)) \<and> distinct (in_flight (pending w)))"

text \<open>
  The two ways in which \<^verbatim>\<open>releaseTeam\<close> can be suspended, told apart: the teams whose
  release request (the \<^verbatim>\<open>POST\<close>) has not been answered yet, and the teams whose
  release request has been answered with \<^verbatim>\<open>success: true\<close> and whose handler awaits
  the re-fetch before its \<^verbatim>\<open>finally\<close> block.
\<close>

fun release_request_of :: "task \<Rightarrow> string option" where
  "release_request_of (Await_release rid) = Some rid"
| "release_request_of t = None"

fun refetch_of :: "task \<Rightarrow> string option" where
  "refetch_of (Await_stack (Then_release rid)) = Some rid"
| "refetch_of t = None"

definition release_requests :: "task list \<Rightarrow> string list" where
  "release_requests ts = List.map_filter release_request_of ts"

definition refetches :: "task list \<Rightarrow> string list" where
  "refetches ts = List.map_filter refetch_of ts"

definition released_4 :: response where
  "released_4 = (bare True)\<lparr>result_field := Some \<lparr>released = Some 4\<rparr>\<rparr>"

definition released_trace :: "event list" where
  "released_trace =
     [Mount, Reply 0 (Resolved (Some one_team)), Click_release ''T1'',
      Reply 0 (Resolved (Some released_4))]"



section \<open>Stack entries as the reply had them\<close>











section \<open>Closed forms of the handlers\<close>

lemmas handler_defs = fetchStack_begin_def fetchStack_try_def fetchStack_catch_def fetchStack_finally_def
  fetchStack_resume_def releaseTeam_begin_def releaseTeam_try_def releaseTeam_catch_def
  releaseTeam_finally_def releaseTeam_resume_def releaseTeam_after_fetch_def
  clearStack_begin_def clearStack_try_def clearStack_catch_def clearStack_finally_def
  clearStack_resume_def clearStack_after_fetch_def catch_with_def finally_with_def
  showToast_def toast_delay_def api_def
  setStack_def setStats_def setLoading_def setReleasing_def setToast_def setAutoRefresh_def

lemmas loop_defs = effect_def run_cleanup_def spawn_def settle_def shown_def render_def
  setInterval_fetchStack_def clearInterval_def refresh_period_def

lemma fetchStack_resume_cases:
  "fetchStack_resume out w =
     (Returned,
      (case out of
         Resolved (Some r) \<Rightarrow>
           if success r then
             setLoading False (setStats (case stats_field r of Some st \<Rightarrow> st
                       | None \<Rightarrow> \<lparr>totalTeams = 0, totalCards = 0\<rparr>)
               (setStack (case stack_field r of Some xs \<Rightarrow> xs | None \<Rightarrow> []) w))
           else setLoading False (showToast ''Failed to fetch stack data'' Type_error w)
       | _ \<Rightarrow> setLoading False (showToast ''Error connecting to server'' Type_error w)))"
  by (simp add: fetchStack_resume_def fetchStack_try_def fetchStack_catch_def
      fetchStack_finally_def catch_with_def finally_with_def
      split: api_outcome.splits option.splits)


lemma fetchStack_resume_frame:
  "pending (snd (fetchStack_resume out w)) = pending w"
  "unhandled (snd (fetchStack_resume out w)) = unhandled w"
  "calls (snd (fetchStack_resume out w)) = calls w"
  "intervals (snd (fetchStack_resume out w)) = intervals w"
  "cleanup (snd (fetchStack_resume out w)) = cleanup w"
  "next_id (snd (fetchStack_resume out w)) = next_id w"
  "phase (snd (fetchStack_resume out w)) = phase w"
  "now (snd (fetchStack_resume out w)) = now w"
  "releasing (comp (snd (fetchStack_resume out w))) = releasing (comp w)"
  "autoRefresh (comp (snd (fetchStack_resume out w))) = autoRefresh (comp w)"
  "loading (comp (snd (fetchStack_resume out w))) = False"
  by (simp_all add: fetchStack_resume_cases setLoading_def setStats_def setStack_def
      showToast_def setToast_def split: api_outcome.splits option.splits)

lemma resume_never_throws: "fst (resume t out w) \<noteq> Thrown e"
proof (cases t)
  case (Await_stack k)
  obtain w' where r: "fetchStack_resume out w = (Returned, w')"
    by (simp add: fetchStack_resume_cases)
  show ?thesis using Await_stack r
    by (cases k) (simp_all add: releaseTeam_after_fetch_def clearStack_after_fetch_def
        catch_with_def finally_with_def)
next
  case (Await_release rid)
  then show ?thesis
    by (simp add: releaseTeam_resume_def releaseTeam_try_def releaseTeam_catch_def
        fetchStack_begin_def catch_with_def finally_with_def
        split: api_outcome.splits option.splits)
next
  case Await_clear
  then show ?thesis
    by (simp add: clearStack_resume_def clearStack_try_def clearStack_catch_def
        fetchStack_begin_def catch_with_def finally_with_def
        split: api_outcome.splits option.splits)
qed


lemma releaseTeam_resume_cases:
  "releaseTeam_resume rid out w =
     (case out of
        Resolved (Some r) \<Rightarrow>
          if success r then
            (case result_field r of
               None \<Rightarrow>
                 (Returned, releaseTeam_finally rid
                    (showToast (''Error releasing team '' @ rid) Type_error w))
             | Some res \<Rightarrow>
                 (Awaiting (Await_stack (Then_release rid)),
                  api GET_stack
                    (showToast
                      (''Successfully released '' @ show_released (released res)
                         @ '' cards for team '' @ rid)
                      Type_success w)))
          else
            (Returned, releaseTeam_finally rid
               (showToast (''Failed to release team '' @ rid @ '': '' @ show_error (error_field r))
                  Type_error w))
      | _ \<Rightarrow>
          (Returned, releaseTeam_finally rid
             (showToast (''Error releasing team '' @ rid) Type_error w)))"
  by (simp add: releaseTeam_resume_def releaseTeam_try_def releaseTeam_catch_def
      fetchStack_begin_def catch_with_def finally_with_def
      split: api_outcome.splits option.splits)

lemma clearStack_resume_cases:
  "clearStack_resume out w =
     (case out of
        Resolved (Some r) \<Rightarrow>
          if success r then
            (Awaiting (Await_stack Then_clear),
             api GET_stack (showToast ''Stack cleared successfully'' Type_success w))
          else
            (Returned, clearStack_finally
               (showToast (''Failed to clear stack: '' @ show_error (error_field r)) Type_error w))
      | _ \<Rightarrow> (Returned, clearStack_finally (showToast ''Error clearing stack'' Type_error w)))"
  by (simp add: clearStack_resume_def clearStack_try_def clearStack_catch_def
      fetchStack_begin_def catch_with_def finally_with_def
      split: api_outcome.splits option.splits)

lemma after_fetch_returned:
  "after_fetch k (Returned, w) =
     (Returned, (case k of Nobody \<Rightarrow> w | Then_release rid \<Rightarrow> releaseTeam_finally rid w
                 | Then_clear \<Rightarrow> clearStack_finally w))"
  by (cases k) (simp_all add: releaseTeam_after_fetch_def clearStack_after_fetch_def
      catch_with_def finally_with_def)

lemma resume_stack_cases:
  "resume (Await_stack k) out w =
     (Returned, (case k of Nobody \<Rightarrow> snd (fetchStack_resume out w)
                 | Then_release rid \<Rightarrow> releaseTeam_finally rid (snd (fetchStack_resume out w))
                 | Then_clear \<Rightarrow> clearStack_finally (snd (fetchStack_resume out w))))"
proof -
  have "fetchStack_resume out w = (Returned, snd (fetchStack_resume out w))"
    by (simp add: fetchStack_resume_cases)
  then have "resume (Await_stack k) out w = after_fetch k (Returned, snd (fetchStack_resume out w))"
    by simp
  then show ?thesis by (simp only: after_fetch_returned)
qed

lemma showToast_frame:
  "pending (showToast m ty w) = pending w"
  "unhandled (showToast m ty w) = unhandled w"
  "calls (showToast m ty w) = calls w"
  "intervals (showToast m ty w) = intervals w"
  "cleanup (showToast m ty w) = cleanup w"
  "next_id (showToast m ty w) = next_id w"
  "phase (showToast m ty w) = phase w"
  "now (showToast m ty w) = now w"
  "timeouts (showToast m ty w) = timeouts w @ [now w + 5000]"
  "comp (showToast m ty w) = (comp w)\<lparr>toast := Some \<lparr>message = m, toast_type = ty\<rparr>\<rparr>"
  by (simp_all add: showToast_def setToast_def toast_delay_def)

lemma api_frame:
  "pending (api r w) = pending w"
  "unhandled (api r w) = unhandled w"
  "calls (api r w) = calls w @ [r]"
  "intervals (api r w) = intervals w"
  "cleanup (api r w) = cleanup w"
  "next_id (api r w) = next_id w"
  "phase (api r w) = phase w"
  "now (api r w) = now w"
  "timeouts (api r w) = timeouts w"
  "comp (api r w) = comp w"
  by (simp_all add: api_def)

lemma releaseTeam_finally_frame:
  "pending (releaseTeam_finally rid w) = pending w"
  "unhandled (releaseTeam_finally rid w) = unhandled w"
  "calls (releaseTeam_finally rid w) = calls w"
  "intervals (releaseTeam_finally rid w) = intervals w"
  "cleanup (releaseTeam_finally rid w) = cleanup w"
  "next_id (releaseTeam_finally rid w) = next_id w"
  "phase (releaseTeam_finally rid w) = phase w"
  "now (releaseTeam_finally rid w) = now w"
  "timeouts (releaseTeam_finally rid w) = timeouts w"
  "comp (releaseTeam_finally rid w) = (comp w)\<lparr>releasing := releasing (comp w) - {rid}\<rparr>"
  by (simp_all add: releaseTeam_finally_def setReleasing_def)

lemma setLoading_frame:
  "pending (setLoading b w) = pending w"
  "unhandled (setLoading b w) = unhandled w"
  "calls (setLoading b w) = calls w"
  "intervals (setLoading b w) = intervals w"
  "cleanup (setLoading b w) = cleanup w"
  "next_id (setLoading b w) = next_id w"
  "phase (setLoading b w) = phase w"
  "now (setLoading b w) = now w"
  "timeouts (setLoading b w) = timeouts w"
  "comp (setLoading b w) = (comp w)\<lparr>loading := b\<rparr>"
  by (simp_all add: setLoading_def)

lemmas frames = showToast_frame api_frame releaseTeam_finally_frame setLoading_frame
  clearStack_finally_def

lemma fetchStack_resume_timeouts:
  "list_all P (timeouts w) \<Longrightarrow> P (now w + 5000)
   \<Longrightarrow> list_all P (timeouts (snd (fetchStack_resume out w)))"
  by (simp add: fetchStack_resume_cases setLoading_def setStats_def setStack_def
      showToast_frame split: api_outcome.splits option.splits)

lemma resume_pending: "pending (snd (resume t out w)) = pending w"
proof (cases t)
  case (Await_stack k)
  then show ?thesis
    by (simp only: resume_stack_cases)
      (simp add: frames fetchStack_resume_frame split: waiter.splits)
next
  case (Await_release rid)
  then show ?thesis
    by (simp add: releaseTeam_resume_cases frames split: api_outcome.splits option.splits)
next
  case Await_clear
  then show ?thesis
    by (simp add: clearStack_resume_cases frames split: api_outcome.splits option.splits)
qed

lemma resume_releasing:
  "(case fst (resume t out w) of
      Awaiting t' \<Rightarrow>
        release_of t' = release_of t
        \<and> releasing (comp (snd (resume t out w))) = releasing (comp w)
    | Returned \<Rightarrow>
        releasing (comp (snd (resume t out w)))
          = releasing (comp w) - (case release_of t of None \<Rightarrow> {} | Some rid \<Rightarrow> {rid})
    | Thrown e \<Rightarrow> False)"
proof (cases t)
  case (Await_stack k)
  then show ?thesis
    by (simp only: resume_stack_cases)
      (simp add: frames fetchStack_resume_frame split: waiter.splits)
next
  case (Await_release rid)
  then show ?thesis
    by (simp add: releaseTeam_resume_cases frames split: api_outcome.splits option.splits)
next
  case Await_clear
  then show ?thesis
    by (simp add: clearStack_resume_cases frames split: api_outcome.splits option.splits)
qed

lemma then_reply_returned: "then_reply (Returned, w) out = (Returned, w)"
  by (simp add: then_reply_def)

lemma then_reply_awaiting: "then_reply (Awaiting t, w) out = resume t out w"
  by (simp add: then_reply_def)

lemma fetchStack_cases:
  "fetchStack out w = (Returned, snd (fetchStack_resume out (api GET_stack w)))"
  by (simp only: fetchStack_def fetchStack_begin_def then_reply_awaiting resume_stack_cases)
    simp

lemma setReleasing_frame:
  "pending (setReleasing f w) = pending w"
  "unhandled (setReleasing f w) = unhandled w"
  "calls (setReleasing f w) = calls w"
  "intervals (setReleasing f w) = intervals w"
  "cleanup (setReleasing f w) = cleanup w"
  "next_id (setReleasing f w) = next_id w"
  "phase (setReleasing f w) = phase w"
  "now (setReleasing f w) = now w"
  "timeouts (setReleasing f w) = timeouts w"
  "comp (setReleasing f w) = (comp w)\<lparr>releasing := f (releasing (comp w))\<rparr>"
  by (simp_all add: setReleasing_def)


lemma resume_release_done:
  "fst (resume (Await_stack (Then_release rid)) out w) = Returned
   \<and> rid \<notin> releasing (comp (snd (resume (Await_stack (Then_release rid)) out w)))"
  by (simp only: resume_stack_cases) (simp add: frames)

lemma releaseTeam_completes:
  "fst (releaseTeam rid out out' w) = Returned
   \<and> rid \<notin> releasing (comp (snd (releaseTeam rid out out' w)))"
proof -
  let ?w1 = "snd (releaseTeam_begin rid w)"
  have b: "releaseTeam rid out out' w = then_reply (releaseTeam_resume rid out ?w1) out'"
    by (simp add: releaseTeam_def releaseTeam_begin_def then_reply_awaiting)
  obtain s w2 where r: "releaseTeam_resume rid out ?w1 = (s, w2)"
    by (cases "releaseTeam_resume rid out ?w1")
  from r have "s = Returned \<and> rid \<notin> releasing (comp w2)
      \<or> s = Awaiting (Await_stack (Then_release rid))"
    by (auto simp: releaseTeam_resume_cases frames split: api_outcome.splits option.splits if_splits)
  then show ?thesis
  proof
    assume "s = Returned \<and> rid \<notin> releasing (comp w2)"
    then show ?thesis by (simp add: b r then_reply_returned)
  next
    assume "s = Awaiting (Await_stack (Then_release rid))"
    then have "releaseTeam rid out out' w = resume (Await_stack (Then_release rid)) out' w2"
      by (simp add: b r then_reply_awaiting)
    then show ?thesis using resume_release_done [of rid out' w2] by simp
  qed
qed


lemma clearStack_resume_failed:
  "failed out \<Longrightarrow>
   fst (clearStack_resume out w) = Returned
   \<and> calls (snd (clearStack_resume out w)) = calls w
   \<and> map_option toast_type (toast (comp (snd (clearStack_resume out w)))) = Some Type_error
   \<and> loading (comp (snd (clearStack_resume out w))) = False"
proof (cases out)
  case Rejected
  then show ?thesis by (simp add: clearStack_resume_cases frames)
next
  case (Resolved v)
  assume f: "failed out"
  show ?thesis
  proof (cases v)
    case None
    with Resolved show ?thesis by (simp add: clearStack_resume_cases frames)
  next
    case (Some r)
    with Resolved f have "\<not> success r" by (simp add: failed_def)
    with Resolved Some show ?thesis by (simp add: clearStack_resume_cases frames)
  qed
qed

lemma clearStack_resume_ok:
  "\<not> failed out \<Longrightarrow>
   clearStack_resume out w
     = (Awaiting (Await_stack Then_clear),
        api GET_stack (showToast ''Stack cleared successfully'' Type_success w))"
  by (cases out) (auto simp: failed_def clearStack_resume_cases split: option.splits)

section \<open>Invariants of the event loop\<close>

lemma in_flight_append:
  "in_flight (ts @ us) = in_flight ts @ in_flight us"
  by (simp add: in_flight_def map_filter_def)

lemma in_flight_single:
  "in_flight [t] = (case release_of t of None \<Rightarrow> [] | Some rid \<Rightarrow> [rid])"
  by (simp add: in_flight_def map_filter_def split: option.splits)

lemma in_flight_split:
  "i < length ts \<Longrightarrow>
   in_flight ts = in_flight (take i ts) @ in_flight [ts ! i] @ in_flight (drop (Suc i) ts)"
proof -
  assume "i < length ts"
  then have "ts = take i ts @ [ts ! i] @ drop (Suc i) ts"
    by (simp add: id_take_nth_drop)
  then have "in_flight ts = in_flight (take i ts @ [ts ! i] @ drop (Suc i) ts)"
    by simp
  then show ?thesis by (simp only: in_flight_append)
qed

lemma in_flight_update:
  "i < length ts \<Longrightarrow>
   in_flight (ts[i := t]) = in_flight (take i ts) @ in_flight [t] @ in_flight (drop (Suc i) ts)"
proof -
  assume "i < length ts"
  then have "ts[i := t] = take i ts @ [t] @ drop (Suc i) ts"
    by (simp add: upd_conv_take_nth_drop)
  then show ?thesis by (simp only: in_flight_append)
qed

lemma settle_busy:
  assumes ok: "busy_ok w" and i: "i < length (pending w)"
  shows "busy_ok (settle i (resume (pending w ! i) out w))"
proof -
  let ?t = "pending w ! i"
  let ?r = "resume ?t out w"
  obtain s w' where r: "?r = (s, w')" by (cases ?r)
  have p: "pending w' = pending w" using resume_pending [of ?t out w] r by simp
  note rr = resume_releasing [of ?t out w]
  note sp = in_flight_split [OF i]
  from ok have rel: "releasing (comp w) = set (in_flight (pending w))"
    and dist: "distinct (in_flight (pending w))" by (simp_all add: busy_ok_def)
  show ?thesis
  proof (cases s)
    case Returned
    with rr r have rel': "releasing (comp w')
        = releasing (comp w) - (case release_of ?t of None \<Rightarrow> {} | Some rid \<Rightarrow> {rid})"
      by simp
    have st: "settle i ?r = w'\<lparr>pending := take i (pending w) @ drop (Suc i) (pending w)\<rparr>"
      using r Returned p by (simp add: settle_def)
    show ?thesis
    proof (cases "release_of ?t")
      case None
      then have "in_flight (pending w)
          = in_flight (take i (pending w)) @ in_flight (drop (Suc i) (pending w))"
        using sp by (simp add: in_flight_single)
      with rel dist rel' None show ?thesis
        by (simp add: st busy_ok_def in_flight_append)
    next
      case (Some rid)
      then have e: "in_flight (pending w)
          = in_flight (take i (pending w)) @ [rid] @ in_flight (drop (Suc i) (pending w))"
        using sp by (simp add: in_flight_single)
      from dist e have d: "distinct (in_flight (take i (pending w)) @ [rid]
          @ in_flight (drop (Suc i) (pending w)))" by simp
      from d rel rel' Some e show ?thesis
        by (auto simp: st busy_ok_def in_flight_append)
    qed
  next
    case (Thrown e)
    with rr r show ?thesis by simp
  next
    case (Awaiting t')
    with rr r have same: "release_of t' = release_of ?t"
      and rel': "releasing (comp w') = releasing (comp w)" by simp_all
    have st: "settle i ?r = w'\<lparr>pending := (pending w)[i := t']\<rparr>"
      using r Awaiting p by (simp add: settle_def)
    have "in_flight ((pending w)[i := t']) = in_flight (pending w)"
      using in_flight_update [OF i, of t'] sp same by (simp add: in_flight_single)
    with rel dist rel' show ?thesis by (simp add: st busy_ok_def)
  qed
qed

lemma spawn_fetch_busy:
  "busy_ok w \<Longrightarrow> busy_ok (spawn (fetchStack_begin Nobody w))"
  by (simp add: busy_ok_def spawn_def fetchStack_begin_def api_def in_flight_append
      in_flight_single)

lemma effect_busy: "busy_ok w \<Longrightarrow> busy_ok (effect w)"
  by (simp add: busy_ok_def effect_def Let_def spawn_def fetchStack_begin_def api_def
      setInterval_fetchStack_def in_flight_append in_flight_single)

lemma run_cleanup_busy: "busy_ok w \<Longrightarrow> busy_ok (run_cleanup w)"
  by (simp add: busy_ok_def run_cleanup_def clearInterval_def split: option.splits)

lemma row_enabled:
  "list_ex (\<lambda>r. row_id r = rid \<and> \<not> release_disabled r) (map (render_row rel) xs)
   \<Longrightarrow> rid \<notin> rel"
  by (induction xs) (auto simp: render_row_def)

lemma step_busy:
  assumes ok: "busy_ok w" and st: "step e w = Some w'"
  shows "busy_ok w'"
proof (cases e)
  case Mount
  have "busy_ok (w\<lparr>phase := Mounted\<rparr>)" using ok by (simp add: busy_ok_def)
  then show ?thesis using st Mount effect_busy by (auto split: if_splits)
next
  case Unmount
  have "busy_ok (run_cleanup w)" using ok by (rule run_cleanup_busy)
  then have "busy_ok ((run_cleanup w)\<lparr>phase := Gone\<rparr>)" by (simp add: busy_ok_def)
  then show ?thesis using st Unmount by (auto split: if_splits)
next
  case Click_refresh
  then show ?thesis using st spawn_fetch_busy [OF ok]
    by (auto split: option.splits if_splits)
next
  case (Click_clear c)
  have "busy_ok (spawn (clearStack_begin c w))" using ok
    by (simp add: busy_ok_def spawn_def clearStack_begin_def api_def setLoading_def
        in_flight_append in_flight_single)
  then show ?thesis using st Click_clear by (auto split: option.splits if_splits)
next
  case (Click_release rid)
  from st Click_release obtain p where p: "shown w = Some p"
    and en: "list_ex (\<lambda>r. row_id r = rid \<and> \<not> release_disabled r) (rows p)"
    and w': "w' = spawn (releaseTeam_begin rid w)"
    by (auto split: option.splits if_splits)
  from p have "rows p = map (render_row (releasing (comp w))) (stack (comp w))"
    by (auto simp: shown_def render_def split: if_splits)
  with en have "rid \<notin> releasing (comp w)" using row_enabled by simp
  with ok show ?thesis
    by (simp add: w' busy_ok_def spawn_def releaseTeam_begin_def api_def setReleasing_def
        in_flight_append in_flight_single)
next
  case (Change_checkbox b)
  have "busy_ok (setAutoRefresh b w)" using ok by (simp add: busy_ok_def setAutoRefresh_def)
  then have "busy_ok (effect (run_cleanup (setAutoRefresh b w)))"
    by (intro effect_busy run_cleanup_busy)
  then show ?thesis using st Change_checkbox ok by (auto split: option.splits if_splits)
next
  case Close_toast
  have "busy_ok (setToast None w)" using ok by (simp add: busy_ok_def setToast_def)
  then show ?thesis using st Close_toast by (auto split: option.splits if_splits)
next
  case (Reply i out)
  then show ?thesis using st settle_busy [OF ok] by (auto split: if_splits)
next
  case (Advance d)
  then show ?thesis using st ok by (auto simp: busy_ok_def split: if_splits)
next
  case (Timeout_fires i)
  then show ?thesis using st ok by (auto simp: busy_ok_def setToast_def split: if_splits)
next
  case (Interval_fires i)
  have "\<And>v. busy_ok (w\<lparr>intervals := v\<rparr>)" using ok by (simp add: busy_ok_def)
  then show ?thesis using st Interval_fires spawn_fetch_busy
    by (auto split: option.splits if_splits)
qed

lemma run_busy: "busy_ok w \<Longrightarrow> run es w = Some w' \<Longrightarrow> busy_ok w'"
proof (induction es arbitrary: w)
  case Nil
  then show ?case by simp
next
  case (Cons e es)
  then show ?case by (auto split: option.splits dest: step_busy)
qed

lemma initial_busy: "busy_ok initial"
  by (simp add: busy_ok_def initial_def initial_state_def in_flight_def map_filter_def)

lemma resume_frame_conj:
  "intervals (snd (resume t out w)) = intervals w \<and>
    cleanup (snd (resume t out w)) = cleanup w \<and>
    phase (snd (resume t out w)) = phase w \<and>
    now (snd (resume t out w)) = now w \<and>
    next_id (snd (resume t out w)) = next_id w \<and>
    unhandled (snd (resume t out w)) = unhandled w \<and>
    autoRefresh (comp (snd (resume t out w))) = autoRefresh (comp w)"
proof (cases t)
  case (Await_stack k)
  then show ?thesis
    by (simp only: resume_stack_cases)
      (simp add: frames fetchStack_resume_frame split: waiter.splits)
next
  case (Await_release rid)
  then show ?thesis
    by (simp add: releaseTeam_resume_cases frames split: api_outcome.splits option.splits)
next
  case Await_clear
  then show ?thesis
    by (simp add: clearStack_resume_cases frames split: api_outcome.splits option.splits)
qed

lemma resume_frame:
  "intervals (snd (resume t out w)) = intervals w"
  "cleanup (snd (resume t out w)) = cleanup w"
  "phase (snd (resume t out w)) = phase w"
  "now (snd (resume t out w)) = now w"
  "next_id (snd (resume t out w)) = next_id w"
  "unhandled (snd (resume t out w)) = unhandled w"
  "autoRefresh (comp (snd (resume t out w))) = autoRefresh (comp w)"
  using resume_frame_conj [of t out w] by simp_all

lemma resume_timeouts:
  "list_all P (timeouts w) \<Longrightarrow> P (now w + 5000)
   \<Longrightarrow> list_all P (timeouts (snd (resume t out w)))"
proof (cases t)
  case (Await_stack k)
  assume "list_all P (timeouts w)" "P (now w + 5000)"
  then have "list_all P (timeouts (snd (fetchStack_resume out w)))"
    by (rule fetchStack_resume_timeouts)
  then show ?thesis using Await_stack
    by (simp only: resume_stack_cases) (simp add: frames split: waiter.splits)
next
  case (Await_release rid)
  assume "list_all P (timeouts w)" "P (now w + 5000)"
  then show ?thesis using Await_release
    by (simp add: releaseTeam_resume_cases frames split: api_outcome.splits option.splits)
next
  case Await_clear
  assume "list_all P (timeouts w)" "P (now w + 5000)"
  then show ?thesis using Await_clear
    by (simp add: clearStack_resume_cases frames split: api_outcome.splits option.splits)
qed

lemma settle_frame:
  "fst r \<noteq> Thrown e0 \<Longrightarrow> (\<And>e. fst r \<noteq> Thrown e) \<Longrightarrow>
   intervals (settle i r) = intervals (snd r) \<and> cleanup (settle i r) = cleanup (snd r)
   \<and> phase (settle i r) = phase (snd r) \<and> now (settle i r) = now (snd r)
   \<and> timeouts (settle i r) = timeouts (snd r) \<and> comp (settle i r) = comp (snd r)
   \<and> unhandled (settle i r) = unhandled (snd r) \<and> calls (settle i r) = calls (snd r)"
  by (cases r; cases "fst r") (auto simp: settle_def)

lemma settle_resume_frame:
  "intervals (settle i (resume t out w)) = intervals w"
  "cleanup (settle i (resume t out w)) = cleanup w"
  "phase (settle i (resume t out w)) = phase w"
  "now (settle i (resume t out w)) = now w"
  "unhandled (settle i (resume t out w)) = unhandled w"
  "timeouts (settle i (resume t out w)) = timeouts (snd (resume t out w))"
  "comp (settle i (resume t out w)) = comp (snd (resume t out w))"
  "calls (settle i (resume t out w)) = calls (snd (resume t out w))"
  using settle_frame [of "resume t out w" undefined i] resume_never_throws [of t out w]
  by (simp_all add: resume_frame)

lemma settle_timers:
  assumes ok: "timers_ok w"
  shows "timers_ok (settle i (resume t out w))"
proof -
  let ?w = "settle i (resume t out w)"
  from ok have a: "list_all (\<lambda>due. now w \<le> due) (timeouts w)"
    and b: "list_all (\<lambda>due. now w \<le> due) (map snd (intervals w))"
    by (simp_all add: timers_ok_def)
  have "list_all (\<lambda>due. now w \<le> due) (timeouts (snd (resume t out w)))"
    using a by (rule resume_timeouts) simp
  then have "list_all (\<lambda>due. now ?w \<le> due) (timeouts ?w @ map snd (intervals ?w))"
    using b by (simp add: settle_resume_frame)
  then show ?thesis using ok
    by (simp add: timers_ok_def settle_resume_frame resume_frame)
qed

lemma spawn_fetch_frame:
  "intervals (spawn (fetchStack_begin k w)) = intervals w"
  "cleanup (spawn (fetchStack_begin k w)) = cleanup w"
  "phase (spawn (fetchStack_begin k w)) = phase w"
  "now (spawn (fetchStack_begin k w)) = now w"
  "next_id (spawn (fetchStack_begin k w)) = next_id w"
  "timeouts (spawn (fetchStack_begin k w)) = timeouts w"
  "unhandled (spawn (fetchStack_begin k w)) = unhandled w"
  "comp (spawn (fetchStack_begin k w)) = comp w"
  "calls (spawn (fetchStack_begin k w)) = calls w @ [GET_stack]"
  "pending (spawn (fetchStack_begin k w)) = pending w @ [Await_stack k]"
  by (simp_all add: spawn_def fetchStack_begin_def api_def)

lemma spawn_fetch_timers: "timers_ok w \<Longrightarrow> timers_ok (spawn (fetchStack_begin k w))"
  by (simp add: timers_ok_def spawn_fetch_frame)

lemma effect_after_cleanup:
  "intervals w = [] \<Longrightarrow>
   effect w =
     (if autoRefresh (comp w)
      then (spawn (fetchStack_begin Nobody w))
             \<lparr>intervals := [(next_id w, now w + 3000)], next_id := Suc (next_id w),
               cleanup := Some (next_id w)\<rparr>
      else (spawn (fetchStack_begin Nobody w))\<lparr>cleanup := None\<rparr>)"
  by (simp add: effect_def Let_def setInterval_fetchStack_def refresh_period_def
      spawn_fetch_frame)

lemma run_cleanup_timers:
  "map fst (intervals w) = (case cleanup w of None \<Rightarrow> [] | Some i \<Rightarrow> [i])
   \<Longrightarrow> intervals (run_cleanup w) = [] \<and> cleanup (run_cleanup w) = None
     \<and> timeouts (run_cleanup w) = timeouts w \<and> now (run_cleanup w) = now w
     \<and> comp (run_cleanup w) = comp w \<and> phase (run_cleanup w) = phase w
     \<and> calls (run_cleanup w) = calls w \<and> next_id (run_cleanup w) = next_id w
     \<and> unhandled (run_cleanup w) = unhandled w \<and> pending (run_cleanup w) = pending w"
  by (cases "intervals w")
    (auto simp: run_cleanup_def clearInterval_def split: option.splits)

lemma effect_timers:
  assumes i: "intervals w = []" and t: "list_all (\<lambda>due. now w \<le> due) (timeouts w)"
    and m: "phase w = Mounted"
  shows "timers_ok (effect w)"
  using t m by (simp add: effect_after_cleanup [OF i] i timers_ok_def spawn_fetch_frame)

lemma step_timers:
  assumes ok: "timers_ok w" and st: "step e w = Some w'"
  shows "timers_ok w'"
proof (cases e)
  case Mount
  from st Mount have f: "phase w = Fresh" and w': "w' = effect (w\<lparr>phase := Mounted\<rparr>)"
    by (auto split: if_splits)
  from ok f have "intervals w = []" by (auto simp: timers_ok_def)
  then have "timers_ok (effect (w\<lparr>phase := Mounted\<rparr>))"
    using ok by (intro effect_timers) (simp_all add: timers_ok_def)
  then show ?thesis by (simp add: w')
next
  case Unmount
  from ok have "map fst (intervals w) = (case cleanup w of None \<Rightarrow> [] | Some i \<Rightarrow> [i])"
    by (simp add: timers_ok_def)
  note rc = run_cleanup_timers [OF this]
  from ok have "list_all (\<lambda>due. now w \<le> due) (timeouts w)" by (simp add: timers_ok_def)
  then have "timers_ok ((run_cleanup w)\<lparr>phase := Gone\<rparr>)"
    using rc by (simp add: timers_ok_def)
  then show ?thesis using st Unmount by (auto split: if_splits)
next
  case Click_refresh
  then show ?thesis using st spawn_fetch_timers [OF ok]
    by (auto split: option.splits if_splits)
next
  case (Click_clear c)
  have "timers_ok (spawn (clearStack_begin c w))" using ok
    by (simp add: timers_ok_def spawn_def clearStack_begin_def api_def setLoading_def)
  then show ?thesis using st Click_clear by (auto split: option.splits if_splits)
next
  case (Click_release rid)
  have "timers_ok (spawn (releaseTeam_begin rid w))" using ok
    by (simp add: timers_ok_def spawn_def releaseTeam_begin_def api_def setReleasing_def)
  then show ?thesis using st Click_release by (auto split: option.splits if_splits)
next
  case (Change_checkbox b)
  show ?thesis
  proof (cases "b = autoRefresh (comp w)")
    case True
    then show ?thesis using st Change_checkbox ok by (auto split: option.splits)
  next
    case False
    with st Change_checkbox have m: "phase w = Mounted"
      and w': "w' = effect (run_cleanup (setAutoRefresh b w))"
      by (auto simp: shown_def split: option.splits if_splits)
    have "map fst (intervals (setAutoRefresh b w))
        = (case cleanup (setAutoRefresh b w) of None \<Rightarrow> [] | Some i \<Rightarrow> [i])"
      using ok by (simp add: timers_ok_def setAutoRefresh_def)
    note rc = run_cleanup_timers [OF this]
    have "timers_ok (effect (run_cleanup (setAutoRefresh b w)))"
      using rc ok m by (intro effect_timers) (simp_all add: timers_ok_def setAutoRefresh_def)
    then show ?thesis by (simp add: w')
  qed
next
  case Close_toast
  have "timers_ok (setToast None w)" using ok by (simp add: timers_ok_def setToast_def)
  then show ?thesis using st Close_toast by (auto split: option.splits if_splits)
next
  case (Reply i out)
  then show ?thesis using st settle_timers [OF ok] by (auto split: if_splits)
next
  case (Advance d)
  then show ?thesis using st ok by (auto simp: timers_ok_def split: if_splits)
next
  case (Timeout_fires i)
  with st have i: "i < length (timeouts w)"
    and w': "w' = (setToast None w)\<lparr>timeouts := take i (timeouts w) @ drop (Suc i) (timeouts w)\<rparr>"
    by (auto split: if_splits)
  from ok have "list_all (\<lambda>due. now w \<le> due) (timeouts w)" by (simp add: timers_ok_def)
  then have "list_all (\<lambda>due. now w \<le> due) (take i (timeouts w) @ drop (Suc i) (timeouts w))"
    by (auto simp: list_all_iff dest: in_set_takeD in_set_dropD)
  then show ?thesis using ok by (simp add: w' timers_ok_def setToast_def)
next
  case (Interval_fires i)
  with st obtain due where d: "map_of (intervals w) i = Some due" and le: "due \<le> now w"
    and w': "w' = spawn (fetchStack_begin Nobody
                    (w\<lparr>intervals := map (\<lambda>p. if fst p = i then (i, due + refresh_period) else p)
                                      (intervals w)\<rparr>))"
    by (auto split: option.splits if_splits)
  from d ok have iv: "intervals w = [(i, due)]" and c: "cleanup w = Some i"
    by (cases "intervals w"; auto simp: timers_ok_def split: option.splits if_splits)+
  have "timers_ok (w\<lparr>intervals := map (\<lambda>p. if fst p = i then (i, due + refresh_period) else p)
                                      (intervals w)\<rparr>)"
    using ok le by (auto simp: iv c timers_ok_def)
  then show ?thesis unfolding w' by (rule spawn_fetch_timers)
qed

lemma run_timers: "timers_ok w \<Longrightarrow> run es w = Some w' \<Longrightarrow> timers_ok w'"
proof (induction es arbitrary: w)
  case Nil
  then show ?case by simp
next
  case (Cons e es)
  then show ?case by (auto split: option.splits dest: step_timers)
qed

lemma initial_timers: "timers_ok initial"
  by (simp add: timers_ok_def initial_def)











lemmas eval_defs = handler_defs loop_defs initial_def initial_state_def bare_def
  one_team_def team_T1_def render_row_def

lemma rows_busy:
  "r \<in> set (map (render_row rel) xs) \<Longrightarrow>
   release_disabled r = (row_id r \<in> rel)
   \<and> release_label r = (if row_id r \<in> rel then ''Releasing...'' else ''Release All'')"
  by (auto simp: render_row_def)

lemma shown_rows:
  "shown w = Some p \<Longrightarrow> rows p = map (render_row (releasing (comp w))) (stack (comp w))"
  by (auto simp: shown_def render_def split: if_splits)

lemma click_release_enters:
  "step (Click_release rid) w = Some w' \<Longrightarrow>
   rid \<in> releasing (comp w') \<and> in_flight (pending w') = in_flight (pending w) @ [rid]
   \<and> rid \<notin> releasing (comp w)"
proof -
  assume st: "step (Click_release rid) w = Some w'"
  then obtain p where p: "shown w = Some p"
    and en: "list_ex (\<lambda>r. row_id r = rid \<and> \<not> release_disabled r) (rows p)"
    and w': "w' = spawn (releaseTeam_begin rid w)"
    by (auto split: option.splits if_splits)
  from en have "rid \<notin> releasing (comp w)"
    using row_enabled by (simp add: shown_rows [OF p])
  then show ?thesis
    by (simp add: w' spawn_def releaseTeam_begin_def api_def setReleasing_def
        in_flight_append in_flight_single)
qed

lemma toggle_step:
  assumes ok: "timers_ok w" and sh: "shown w \<noteq> None" and ne: "b \<noteq> autoRefresh (comp w)"
  shows "\<exists>w'. step (Change_checkbox b) w = Some w' \<and> autoRefresh (comp w') = b
     \<and> intervals w' = (if b then [(next_id w, now w + 3000)] else [])
     \<and> calls w' = calls w @ [GET_stack] \<and> phase w' = phase w"
proof -
  let ?w1 = "setAutoRefresh b w"
  have "map fst (intervals ?w1) = (case cleanup ?w1 of None \<Rightarrow> [] | Some i \<Rightarrow> [i])"
    using ok by (simp add: timers_ok_def setAutoRefresh_def)
  note rc = run_cleanup_timers [OF this]
  have i: "intervals (run_cleanup ?w1) = []" using rc by simp
  have f: "autoRefresh (comp (run_cleanup ?w1)) = b" "next_id (run_cleanup ?w1) = next_id w"
    "now (run_cleanup ?w1) = now w" "calls (run_cleanup ?w1) = calls w"
    "phase (run_cleanup ?w1) = phase w"
    using rc by (simp_all add: setAutoRefresh_def)
  have s: "step (Change_checkbox b) w = Some (effect (run_cleanup ?w1))"
    using sh ne by (auto split: option.splits)
  have "autoRefresh (comp (effect (run_cleanup ?w1))) = b
     \<and> intervals (effect (run_cleanup ?w1)) = (if b then [(next_id w, now w + 3000)] else [])
     \<and> calls (effect (run_cleanup ?w1)) = calls w @ [GET_stack]
     \<and> phase (effect (run_cleanup ?w1)) = phase w"
    using f i by (cases b) (simp_all add: effect_after_cleanup spawn_fetch_frame)
  with s show ?thesis by blast
qed

lemma step_quiet:
  assumes q: "intervals w = []" and f: "phase w \<noteq> Fresh"
    and st: "step e w = Some w'" and e: "e \<noteq> Change_checkbox True"
  shows "intervals w' = [] \<and> phase w' \<noteq> Fresh \<and> (\<forall>i. e \<noteq> Interval_fires i)"
proof (cases e)
  case Mount
  then show ?thesis using st f by simp
next
  case Unmount
  then show ?thesis using st q
    by (auto simp: run_cleanup_def clearInterval_def split: if_splits option.splits)
next
  case Click_refresh
  then show ?thesis using st q f
    by (auto simp: spawn_fetch_frame split: option.splits if_splits)
next
  case (Click_clear c)
  then show ?thesis using st q f
    by (auto simp: spawn_def clearStack_begin_def api_def setLoading_def
        split: option.splits if_splits)
next
  case (Click_release rid)
  then show ?thesis using st q f
    by (auto simp: spawn_def releaseTeam_begin_def api_def setReleasing_def
        split: option.splits if_splits)
next
  case (Change_checkbox b)
  with e have b: "\<not> b" by simp
  show ?thesis
  proof (cases "b = autoRefresh (comp w)")
    case True
    then show ?thesis using st Change_checkbox q f by (auto split: option.splits)
  next
    case False
    let ?w1 = "run_cleanup (setAutoRefresh b w)"
    have i: "intervals ?w1 = []" and p: "phase ?w1 = phase w"
      and a: "autoRefresh (comp ?w1) = b"
      using q by (simp_all add: run_cleanup_def clearInterval_def setAutoRefresh_def
          split: option.splits)
    from st Change_checkbox False have "w' = effect ?w1"
      by (auto split: option.splits if_splits)
    then show ?thesis using Change_checkbox b f p a i
      by (simp add: effect_after_cleanup spawn_fetch_frame)
  qed
next
  case Close_toast
  then show ?thesis using st q f by (auto simp: setToast_def split: option.splits if_splits)
next
  case (Reply i out)
  then show ?thesis using st q f by (auto simp: settle_resume_frame split: if_splits)
next
  case (Advance d)
  then show ?thesis using st q f by (auto split: if_splits)
next
  case (Timeout_fires i)
  then show ?thesis using st q f by (auto simp: setToast_def split: if_splits)
next
  case (Interval_fires i)
  then show ?thesis using st q by simp
qed

lemma run_quiet:
  "intervals w = [] \<Longrightarrow> phase w \<noteq> Fresh \<Longrightarrow> run es w = Some w'
   \<Longrightarrow> Change_checkbox True \<notin> set es
   \<Longrightarrow> intervals w' = [] \<and> (\<forall>i. Interval_fires i \<notin> set es)"
proof (induction es arbitrary: w)
  case Nil
  then show ?case by simp
next
  case (Cons e es)
  from Cons.prems obtain w1 where s: "step e w = Some w1" and r: "run es w1 = Some w'"
    by (auto split: option.splits)
  from Cons.prems have e: "e \<noteq> Change_checkbox True" and es: "Change_checkbox True \<notin> set es"
    by auto
  note q = step_quiet [OF Cons.prems(1,2) s e]
  from q es r Cons.IH [of w1] have "intervals w' = [] \<and> (\<forall>i. Interval_fires i \<notin> set es)"
    by blast
  with q show ?case by auto
qed

lemma interval_step:
  assumes ok: "timers_ok w" and st: "step (Interval_fires i) w = Some w'"
  shows "intervals w = [(i, now w)] \<and> intervals w' = [(i, now w + 3000)]
     \<and> calls w' = calls w @ [GET_stack]"
proof -
  from st obtain due where d: "map_of (intervals w) i = Some due" and le: "due \<le> now w"
    and w': "w' = spawn (fetchStack_begin Nobody
                    (w\<lparr>intervals := map (\<lambda>p. if fst p = i then (i, due + refresh_period) else p)
                                      (intervals w)\<rparr>))"
    by (auto split: option.splits if_splits)
  from d ok have iv: "intervals w = [(i, due)]"
    by (cases "intervals w"; auto simp: timers_ok_def split: option.splits if_splits)
  from ok iv le have "due = now w" by (simp add: timers_ok_def)
  then show ?thesis by (simp add: w' iv spawn_fetch_frame refresh_period_def)
qed

lemma unmount_step:
  assumes ok: "timers_ok w" and m: "phase w = Mounted"
  shows "\<exists>w'. step Unmount w = Some w' \<and> intervals w' = [] \<and> calls w' = calls w"
proof -
  from ok have "map fst (intervals w) = (case cleanup w of None \<Rightarrow> [] | Some i \<Rightarrow> [i])"
    by (simp add: timers_ok_def)
  note rc = run_cleanup_timers [OF this]
  then show ?thesis using m by simp
qed

lemma in_flight_parts:
  "set (in_flight ts) = set (release_requests ts) \<union> set (refetches ts)"
proof (induction ts)
  case Nil
  then show ?case by (simp add: in_flight_def release_requests_def refetches_def)
next
  case (Cons t ts)
  then show ?case
    by (cases t rule: release_of.cases)
      (auto simp: in_flight_def release_requests_def refetches_def)
qed

lemma click_release_request:
  "step (Click_release rid) w = Some w' \<Longrightarrow>
   calls w' = calls w @ [POST_release rid] \<and> pending w' = pending w @ [Await_release rid]"
  by (auto simp: spawn_def releaseTeam_begin_def api_def setReleasing_def
      split: option.splits if_splits)

lemma in_flight_distinct_parts:
  "distinct (in_flight ts) \<Longrightarrow> distinct (release_requests ts @ refetches ts)"
proof (induction ts)
  case Nil
  then show ?case by (simp add: release_requests_def refetches_def)
next
  case (Cons t ts)
  have s: "set (in_flight ts) = set (release_requests ts) \<union> set (refetches ts)"
    by (rule in_flight_parts)
  from Cons show ?case using s
    by (cases t rule: release_of.cases)
      (auto simp: in_flight_def release_requests_def refetches_def)
qed









section \<open>Statistics cards\<close>




text \<open>
  C5: in every state with \<^verbatim>\<open>stats.totalCards = 0\<close>, whenever the page is on screen its
  control \<^verbatim>\<open>Clear All Stack\<close> is disabled, and the event loop accepts no click on it.
\<close>

theorem clear_disabled_when_no_cards:
  "totalCards (stats (comp w)) = 0 \<Longrightarrow>
   (\<forall>p. render (comp w) = Page p \<longrightarrow> clear_disabled p) \<and> step (Click_clear c) w = None"
  by (auto simp: render_def shown_def split: if_splits)

theorem clear_disabled_when_no_cards_witness:
  "totalCards (stats (comp (initial\<lparr>phase := Mounted, comp := initial_state\<lparr>loading := False\<rparr>\<rparr>))) = 0
   \<and> (\<exists>p. render (initial_state\<lparr>loading := False\<rparr>) = Page p \<and> clear_disabled p)
   \<and> step (Click_clear True) (initial\<lparr>phase := Mounted, comp := initial_state\<lparr>loading := False\<rparr>\<rparr>) = None"
  using clear_disabled_when_no_cards
    [of "initial\<lparr>phase := Mounted, comp := initial_state\<lparr>loading := False\<rparr>\<rparr>" True]
  by (simp add: initial_state_def render_def)

text \<open>
  C10: the average cell divides exactly when \<^verbatim>\<open>stats.totalCards > 0\<close> and is the
  literal \<^verbatim>\<open>'0'\<close> otherwise; the divisor is \<^verbatim>\<open>stats.totalTeams\<close>, so the cell is free
  of a division by zero exactly when \<^verbatim>\<open>totalTeams > 0\<close> whenever \<^verbatim>\<open>totalCards > 0\<close>.
  The guard itself lets \<^verbatim>\<open>totalTeams = 0\<close> through.
\<close>

theorem average_division_guard:
  "(divides (average_cards st) \<longleftrightarrow> totalCards st > 0)
   \<and> (\<not> divides (average_cards st) \<longrightarrow> average_cards st = Literal ''0'')
   \<and> (divides (average_cards st) \<longrightarrow>
        average_cards st = Quotient_to_fixed (totalCards st) (totalTeams st) 1)
   \<and> (\<not> division_by_zero (average_cards st) \<longleftrightarrow> (totalCards st > 0 \<longrightarrow> totalTeams st > 0))
   \<and> (case render s of Loader_view \<Rightarrow> True
       | Page p \<Rightarrow> average_shown p = average_cards (stats s))"
  by (simp add: average_cards_def render_def)

theorem average_division_guard_witness:
  "divides (average_cards \<lparr>totalTeams = 0, totalCards = 3\<rparr>)
   \<and> average_cards \<lparr>totalTeams = 0, totalCards = 3\<rparr> = Quotient_to_fixed 3 0 1
   \<and> division_by_zero (average_cards \<lparr>totalTeams = 0, totalCards = 3\<rparr>)
   \<and> \<not> divides (average_cards \<lparr>totalTeams = 2, totalCards = 0\<rparr>)
   \<and> average_cards \<lparr>totalTeams = 2, totalCards = 0\<rparr> = Literal ''0''
   \<and> \<not> division_by_zero (average_cards \<lparr>totalTeams = 2, totalCards = 4\<rparr>)"
proof -
  let ?st = "\<lparr>totalTeams = 0, totalCards = 3\<rparr>"
  let ?s0 = "\<lparr>totalTeams = 2, totalCards = 0\<rparr>"
  let ?s2 = "\<lparr>totalTeams = 2, totalCards = 4\<rparr>"
  have c: "totalCards ?st > 0" and t: "totalTeams ?st = 0" by simp_all
  note g = average_division_guard [of ?st initial_state]
  from g c have d: "divides (average_cards ?st)" by blast
  with g have q: "average_cards ?st = Quotient_to_fixed (totalCards ?st) (totalTeams ?st) 1"
    by blast
  from g c t have z: "division_by_zero (average_cards ?st)" by auto
  note g0 = average_division_guard [of ?s0 initial_state]
  have c0: "\<not> totalCards ?s0 > 0" by simp
  from g0 c0 have d0: "\<not> divides (average_cards ?s0)" by blast
  with g0 have q0: "average_cards ?s0 = Literal ''0''" by blast
  note g2 = average_division_guard [of ?s2 initial_state]
  have c2: "totalCards ?s2 > 0 \<longrightarrow> totalTeams ?s2 > 0" by simp
  from g2 c2 have z2: "\<not> division_by_zero (average_cards ?s2)" by blast
  from d q z d0 q0 z2 show ?thesis by simp
qed

section \<open>Fetching and releasing\<close>

text \<open>
  C2: for every team and every reply to the release request (and to the re-fetch that
  follows a successful release), \<^verbatim>\<open>releaseTeam\<close> returns and the team is then not
  in the busy set. This holds for the handler run on its own and, with any other events
  in between, for each segment that ends the handler: after its own reply the handler is
  finished with the team removed or waits for the re-fetch, and the reply to the re-fetch
  finishes it with the team removed.
\<close>

theorem releaseTeam_clears_marker:
  "fst (releaseTeam rid out out' w) = Returned
   \<and> rid \<notin> releasing (comp (snd (releaseTeam rid out out' w)))
   \<and> rid \<in> releasing (comp (snd (releaseTeam_begin rid w)))
   \<and> (fst (resume (Await_release rid) out w1) = Returned
        \<and> rid \<notin> releasing (comp (snd (resume (Await_release rid) out w1)))
      \<or> fst (resume (Await_release rid) out w1) = Awaiting (Await_stack (Then_release rid)))
   \<and> fst (resume (Await_stack (Then_release rid)) out' w2) = Returned
   \<and> rid \<notin> releasing (comp (snd (resume (Await_stack (Then_release rid)) out' w2)))"
proof -
  have a: "rid \<in> releasing (comp (snd (releaseTeam_begin rid w)))"
    by (simp add: releaseTeam_begin_def api_def setReleasing_def)
  have b: "fst (resume (Await_release rid) out w1) = Returned
        \<and> rid \<notin> releasing (comp (snd (resume (Await_release rid) out w1)))
      \<or> fst (resume (Await_release rid) out w1) = Awaiting (Await_stack (Then_release rid))"
    by (simp add: releaseTeam_resume_cases frames split: api_outcome.splits option.splits)
  have c: "fst (resume (Await_stack (Then_release rid)) out' w2) = Returned
   \<and> rid \<notin> releasing (comp (snd (resume (Await_stack (Then_release rid)) out' w2)))"
    by (simp only: resume_stack_cases) (simp add: frames)
  from releaseTeam_completes [of rid out out' w] a b c show ?thesis by blast
qed

theorem releaseTeam_clears_marker_witness:
  "fst (releaseTeam ''T1'' (Resolved (Some (bare True))) Rejected initial) = Returned
   \<and> ''T1'' \<notin> releasing (comp (snd (releaseTeam ''T1'' (Resolved (Some (bare True))) Rejected initial)))
   \<and> ''T1'' \<in> releasing (comp (snd (releaseTeam_begin ''T1'' initial)))"
  using releaseTeam_clears_marker [of "''T1''" "Resolved (Some (bare True))" Rejected initial]
  by simp

text \<open>
  C3: a stack fetch that fails (the request is rejected, resolves to no object, or
  answers \<^verbatim>\<open>success: false\<close>) returns normally; it leaves the stack and the
  statistics as they were, sets an error toast and sets the loading flag to false, and
  changes no other state cell. Its one request is the only call it makes.
\<close>

theorem fetchStack_failure_frame:
  "failed out \<Longrightarrow>
   fst (fetchStack out w) = Returned
   \<and> stack (comp (snd (fetchStack out w))) = stack (comp w)
   \<and> stats (comp (snd (fetchStack out w))) = stats (comp w)
   \<and> comp (snd (fetchStack out w))
       = (comp w)\<lparr>toast := Some \<lparr>message =
                      (case out of Resolved (Some r) \<Rightarrow> ''Failed to fetch stack data''
                       | _ \<Rightarrow> ''Error connecting to server''),
                    toast_type = Type_error\<rparr>,
                  loading := False\<rparr>
   \<and> calls (snd (fetchStack out w)) = calls w @ [GET_stack]"
proof (cases out)
  case Rejected
  then show ?thesis by (simp add: fetchStack_cases fetchStack_resume_cases frames)
next
  case (Resolved v)
  assume f: "failed out"
  show ?thesis
  proof (cases v)
    case None
    with Resolved show ?thesis by (simp add: fetchStack_cases fetchStack_resume_cases frames)
  next
    case (Some r)
    with Resolved f have "\<not> success r" by (simp add: failed_def)
    with Resolved Some show ?thesis
      by (simp add: fetchStack_cases fetchStack_resume_cases frames)
  qed
qed

theorem fetchStack_failure_frame_witness:
  "failed (Resolved (Some (bare False)))
   \<and> comp (snd (fetchStack (Resolved (Some (bare False))) initial))
       = initial_state\<lparr>toast := Some \<lparr>message = ''Failed to fetch stack data'',
                                       toast_type = Type_error\<rparr>,
                        loading := False\<rparr>"
  using fetchStack_failure_frame [of "Resolved (Some (bare False))" initial]
  by (simp add: failed_def bare_def initial_def)

section \<open>Clearing the stack\<close>

text \<open>
  C6, as stated, fails: the confirmation is accepted, the clear request answers
  \<^verbatim>\<open>success: false\<close>, and \<^verbatim>\<open>clearStack\<close> ends with an error toast, nothing
  pending and no request after the clear request: no re-fetch.
\<close>

theorem clearStack_failure_no_refetch_counterexample:
  "map_option (\<lambda>w. (calls w, pending w, map_option toast_type (toast (comp w))))
     (run [Mount, Reply 0 (Resolved (Some one_team)), Click_clear True,
           Reply 0 (Resolved (Some (bare False)))] initial)
   = Some ([GET_stack, POST_clear], [], Some Type_error)"
  by (simp add: handler_defs loop_defs initial_def initial_state_def bare_def one_team_def
      team_T1_def)

text \<open>
  C6, amended: a declined confirmation issues no request and leaves the whole state as
  it was. An accepted one sets the loading flag and calls the clear endpoint; whatever
  the reply, a toast is shown (a success toast for \<^verbatim>\<open>success: true\<close>, an error
  toast otherwise) and the handler ends with the loading flag off. The re-fetch is made
  exactly when the reply says \<^verbatim>\<open>success: true\<close>.
\<close>

theorem clearStack_gated:
  "clearStack_begin False w = (Returned, w)
   \<and> clearStack False out out' w = (Returned, w)
   \<and> (step (Click_clear False) w = None \<or> step (Click_clear False) w = Some w)
   \<and> clearStack_begin True w
       = (Awaiting Await_clear,
          w\<lparr>comp := (comp w)\<lparr>loading := True\<rparr>, calls := calls w @ [POST_clear]\<rparr>)
   \<and> map_option toast_type (toast (comp (snd (clearStack_resume out w))))
       = Some (if failed out then Type_error else Type_success)
   \<and> fst (clearStack_resume out w)
       = (if failed out then Returned else Awaiting (Await_stack Then_clear))
   \<and> calls (snd (clearStack_resume out w))
       = (if failed out then calls w else calls w @ [GET_stack])
   \<and> (failed out \<longrightarrow> loading (comp (snd (clearStack_resume out w))) = False)
   \<and> fst (resume (Await_stack Then_clear) out' w) = Returned
   \<and> loading (comp (snd (resume (Await_stack Then_clear) out' w))) = False
   \<and> fst (clearStack True out out' w) = Returned
   \<and> loading (comp (snd (clearStack True out out' w))) = False
   \<and> calls (snd (clearStack True out out' w))
       = (if failed out then calls w @ [POST_clear] else calls w @ [POST_clear, GET_stack])"
proof -
  have a: "clearStack_begin False w = (Returned, w)"
    "clearStack False out out' w = (Returned, w)"
    "step (Click_clear False) w = None \<or> step (Click_clear False) w = Some w"
    by (simp_all add: clearStack_def clearStack_begin_def then_reply_returned spawn_def
        split: option.splits)
  have b: "clearStack_begin True w
       = (Awaiting Await_clear,
          w\<lparr>comp := (comp w)\<lparr>loading := True\<rparr>, calls := calls w @ [POST_clear]\<rparr>)"
    by (simp add: clearStack_begin_def api_def setLoading_def)
  have d: "fst (resume (Await_stack Then_clear) out' w2) = Returned
   \<and> loading (comp (snd (resume (Await_stack Then_clear) out' w2))) = False
   \<and> calls (snd (resume (Await_stack Then_clear) out' w2)) = calls w2" for w2
    by (simp only: resume_stack_cases) (simp add: frames fetchStack_resume_frame)
  let ?w1 = "api POST_clear (setLoading True w)"
  have e: "clearStack True out out' w = then_reply (clearStack_resume out ?w1) out'"
    by (simp add: clearStack_def clearStack_begin_def then_reply_awaiting)
  show ?thesis
  proof (cases "failed out")
    case True
    note f = clearStack_resume_failed [OF True]
    obtain w2 where r: "clearStack_resume out ?w1 = (Returned, w2)"
      using f [of ?w1] by (cases "clearStack_resume out ?w1") simp
    have "clearStack True out out' w = (Returned, w2)"
      by (simp only: e r then_reply_returned)
    with a b d [of w] f [of w] f [of ?w1] r True show ?thesis by (simp add: frames)
  next
    case False
    note g = clearStack_resume_ok [OF False]
    have "clearStack True out out' w
        = resume (Await_stack Then_clear) out'
            (api GET_stack (showToast ''Stack cleared successfully'' Type_success ?w1))"
      using e by (simp only: g then_reply_awaiting)
    with a b d [of w]
      d [of "api GET_stack (showToast ''Stack cleared successfully'' Type_success ?w1)"]
      False show ?thesis by (simp add: g frames)
  qed
qed

theorem clearStack_gated_witness:
  "failed Rejected
   \<and> clearStack False Rejected Rejected initial = (Returned, initial)
   \<and> calls (snd (clearStack True Rejected Rejected initial)) = [POST_clear]
   \<and> \<not> failed (Resolved (Some (bare True)))
   \<and> calls (snd (clearStack True (Resolved (Some (bare True))) Rejected initial))
       = [POST_clear, GET_stack]"
  using clearStack_gated [of initial Rejected Rejected]
    clearStack_gated [of initial "Resolved (Some (bare True))" Rejected]
  by (simp add: failed_def bare_def initial_def)

section \<open>Failures stay inside the handlers\<close>




section \<open>The busy set\<close>

text \<open>
  C7, as stated, fails: the release request of team T1 is answered with
  \<^verbatim>\<open>success: true\<close>, so the release call has resolved and the success toast is set;
  the handler now awaits the re-fetch, no release request is in flight, and T1 is
  still in the busy set with its control disabled and labelled \<^verbatim>\<open>Releasing...\<close>.
\<close>

theorem busy_after_release_resolved_counterexample:
  "map_option (\<lambda>w. (pending w, calls w, map_option toast_type (toast (comp w))))
     (run released_trace initial)
     = Some ([Await_stack (Then_release ''T1'')], [GET_stack, POST_release ''T1'', GET_stack],
             Some Type_success)
   \<and> map_option (\<lambda>w. release_requests (pending w)) (run released_trace initial) = Some []
   \<and> map_option (\<lambda>w. ''T1'' \<in> releasing (comp w)) (run released_trace initial) = Some True
   \<and> map_option (\<lambda>w. map (\<lambda>r. (row_id r, release_disabled r, release_label r))
                       (case shown w of Some p \<Rightarrow> rows p | None \<Rightarrow> []))
        (run released_trace initial)
      = Some [(''T1'', True, ''Releasing...'')]"
  by (simp add: released_trace_def released_4_def eval_defs release_requests_def)

text \<open>
  C7, amended: in every world the page can reach, the busy set is exactly the set of
  the teams whose \<^verbatim>\<open>releaseTeam\<close> has been called and has not ended yet: those whose
  release request is not answered yet, together with those whose release request was
  answered with \<^verbatim>\<open>success: true\<close> and whose handler still awaits the re-fetch;
  no team is in both or twice. A click on an enabled \<^verbatim>\<open>Release All\<close> puts the
  team, which was not busy, into the set and issues its release request; on the page
  the control of a row is disabled and labelled \<^verbatim>\<open>Releasing...\<close> exactly while its
  team is in the set.
\<close>

theorem busy_set_exact:
  "run es initial = Some w \<Longrightarrow>
   releasing (comp w) = set (release_requests (pending w)) \<union> set (refetches (pending w))
   \<and> distinct (release_requests (pending w) @ refetches (pending w))
   \<and> (\<forall>w'. step (Click_release rid) w = Some w' \<longrightarrow>
         rid \<notin> releasing (comp w) \<and> rid \<in> releasing (comp w')
         \<and> calls w' = calls w @ [POST_release rid]
         \<and> pending w' = pending w @ [Await_release rid])
   \<and> (\<forall>p. shown w = Some p \<longrightarrow>
         (\<forall>r \<in> set (rows p).
            release_disabled r = (row_id r \<in> releasing (comp w))
            \<and> release_label r
                = (if row_id r \<in> releasing (comp w) then ''Releasing...'' else ''Release All'')))"
proof -
  assume r: "run es initial = Some w"
  have "busy_ok w" using initial_busy r by (rule run_busy)
  then have a0: "releasing (comp w) = set (in_flight (pending w))"
    and b0: "distinct (in_flight (pending w))" by (simp_all add: busy_ok_def)
  from a0 have a: "releasing (comp w)
      = set (release_requests (pending w)) \<union> set (refetches (pending w))"
    by (simp only: in_flight_parts)
  from b0 have b: "distinct (release_requests (pending w) @ refetches (pending w))"
    by (rule in_flight_distinct_parts)
  have c: "\<forall>p. shown w = Some p \<longrightarrow>
         (\<forall>r \<in> set (rows p).
            release_disabled r = (row_id r \<in> releasing (comp w))
            \<and> release_label r
                = (if row_id r \<in> releasing (comp w) then ''Releasing...'' else ''Release All''))"
  proof (intro allI impI ballI)
    fix p r
    assume p: "shown w = Some p" and "r \<in> set (rows p)"
    then have "r \<in> set (map (render_row (releasing (comp w))) (stack (comp w)))"
      by (simp add: shown_rows)
    then show "release_disabled r = (row_id r \<in> releasing (comp w))
            \<and> release_label r
                = (if row_id r \<in> releasing (comp w) then ''Releasing...'' else ''Release All'')"
      by (rule rows_busy)
  qed
  from a b c click_release_enters [of rid w] click_release_request [of rid w]
  show ?thesis by blast
qed

theorem busy_set_exact_witness:
  "map_option (\<lambda>w. (release_requests (pending w), refetches (pending w)))
     (run busy_trace initial) = Some ([''T2''], [])
   \<and> map_option (\<lambda>w. releasing (comp w)) (run busy_trace initial) = Some {''T2''}
   \<and> map_option (\<lambda>w. map (\<lambda>r. (row_id r, release_disabled r, release_label r))
                       (case shown w of Some p \<Rightarrow> rows p | None \<Rightarrow> []))
        (run busy_trace initial)
      = Some [(''T1'', False, ''Release All''), (''T2'', True, ''Releasing...'')]
   \<and> map_option (\<lambda>w. (pending w, calls w)) (run (busy_trace @ [Click_release ''T1'']) initial)
      = Some ([Await_release ''T2'', Await_release ''T1''],
              [GET_stack, POST_release ''T1'', POST_release ''T2'', POST_release ''T1''])
   \<and> map_option (\<lambda>w. (release_requests (pending w), refetches (pending w)))
        (run released_trace initial) = Some ([], [''T1''])
   \<and> map_option (\<lambda>w. releasing (comp w)) (run released_trace initial) = Some {''T1''}"
proof -
  let ?w = "the (run busy_trace initial)"
  let ?w' = "the (run (busy_trace @ [Click_release ''T1'']) initial)"
  let ?v = "the (run released_trace initial)"
  have r: "run busy_trace initial = Some ?w"
    by (simp add: busy_trace_def two_teams_def eval_defs)
  have r': "run (busy_trace @ [Click_release ''T1'']) initial = Some ?w'"
    by (simp add: busy_trace_def two_teams_def eval_defs)
  have rv: "run released_trace initial = Some ?v"
    by (simp add: released_trace_def released_4_def eval_defs)
  have s: "step (Click_release ''T1'') ?w = Some ?w'"
    by (simp add: busy_trace_def two_teams_def eval_defs)
  have p: "release_requests (pending ?w) = [''T2'']" "refetches (pending ?w) = []"
    "pending ?w = [Await_release ''T2'']"
    "calls ?w = [GET_stack, POST_release ''T1'', POST_release ''T2'']"
    by (simp_all add: busy_trace_def two_teams_def eval_defs release_requests_def
        refetches_def)
  have pv: "release_requests (pending ?v) = []" "refetches (pending ?v) = [''T1'']"
    by (simp_all add: released_trace_def released_4_def eval_defs release_requests_def
        refetches_def)
  note h = busy_set_exact [OF r, of "''T1''"]
  from h have "releasing (comp ?w)
      = set (release_requests (pending ?w)) \<union> set (refetches (pending ?w))"
    by (rule conjunct1)
  then have q: "releasing (comp ?w) = {''T2''}" by (simp only: p(1,2)) simp
  from busy_set_exact [OF rv, of "''T1''"] have "releasing (comp ?v)
      = set (release_requests (pending ?v)) \<union> set (refetches (pending ?v))"
    by (rule conjunct1)
  then have qv: "releasing (comp ?v) = {''T1''}" by (simp only: pv) simp
  from h [THEN conjunct2, THEN conjunct2, THEN conjunct1] s
  have "calls ?w' = calls ?w @ [POST_release ''T1'']
      \<and> pending ?w' = pending ?w @ [Await_release ''T1'']" by blast
  then have q': "pending ?w' = [Await_release ''T2'', Await_release ''T1'']"
    "calls ?w' = [GET_stack, POST_release ''T1'', POST_release ''T2'', POST_release ''T1'']"
    by (simp_all only: p(3,4)) simp_all
  obtain pg where sh: "shown ?w = Some pg"
    and rw: "map row_id (rows pg) = [''T1'', ''T2'']"
    by (simp add: busy_trace_def two_teams_def eval_defs)
  from h [THEN conjunct2, THEN conjunct2, THEN conjunct2] sh have "\<forall>r \<in> set (rows pg).
      release_disabled r = (row_id r \<in> releasing (comp ?w))
      \<and> release_label r
          = (if row_id r \<in> releasing (comp ?w) then ''Releasing...'' else ''Release All'')"
    by blast
  then have "\<forall>r \<in> set (rows pg). (row_id r, release_disabled r, release_label r)
      = (row_id r, row_id r \<in> {''T2''},
         if row_id r \<in> {''T2''} then ''Releasing...'' else ''Release All'')"
    by (simp only: q) simp
  then have "map (\<lambda>r. (row_id r, release_disabled r, release_label r)) (rows pg)
      = map (\<lambda>i. (i, i \<in> {''T2''}, if i \<in> {''T2''} then ''Releasing...'' else ''Release All''))
          (map row_id (rows pg))"
    by (simp add: comp_def)
  then have t: "map (\<lambda>r. (row_id r, release_disabled r, release_label r)) (rows pg)
      = [(''T1'', False, ''Release All''), (''T2'', True, ''Releasing...'')]"
    by (simp only: rw) simp
  have "map_option (\<lambda>w. (release_requests (pending w), refetches (pending w))) (Some ?w)
       = Some ([''T2''], [])
   \<and> map_option (\<lambda>w. releasing (comp w)) (Some ?w) = Some {''T2''}
   \<and> map_option (\<lambda>w. map (\<lambda>r. (row_id r, release_disabled r, release_label r))
                       (case shown w of Some p \<Rightarrow> rows p | None \<Rightarrow> []))
        (Some ?w)
      = Some [(''T1'', False, ''Release All''), (''T2'', True, ''Releasing...'')]
   \<and> map_option (\<lambda>w. (pending w, calls w)) (Some ?w')
      = Some ([Await_release ''T2'', Await_release ''T1''],
              [GET_stack, POST_release ''T1'', POST_release ''T2'', POST_release ''T1''])
   \<and> map_option (\<lambda>w. (release_requests (pending w), refetches (pending w))) (Some ?v)
       = Some ([], [''T1''])
   \<and> map_option (\<lambda>w. releasing (comp w)) (Some ?v) = Some {''T1''}"
    using p q q' t sh pv qv by simp
  then show ?thesis by (simp only: r [symmetric] r' [symmetric] rv [symmetric])
qed

section \<open>Auto-refresh\<close>

text \<open>
  C4, as stated, fails: with the first stack on screen and auto-refresh on, unticking
  the checkbox cancels the interval, and the effect that runs again calls
  \<^verbatim>\<open>fetchStack()\<close> once more: the toggle itself issues a fetch.
\<close>

theorem toggle_off_fetches_counterexample:
  "map_option (\<lambda>w. (autoRefresh (comp w), intervals w, calls w))
     (run [Mount, Reply 0 (Resolved (Some one_team))] initial)
     = Some (True, [(0, 3000)], [GET_stack])
   \<and> map_option (\<lambda>w. (autoRefresh (comp w), intervals w, calls w))
     (run [Mount, Reply 0 (Resolved (Some one_team)), Change_checkbox False] initial)
     = Some (False, [], [GET_stack, GET_stack])"
  by (simp add: eval_defs)

text \<open>
  C4, amended: in every reachable world, toggling auto-refresh off cancels the interval
  and issues exactly one immediate fetch; from then on no interval exists and no interval
  tick occurs in any continuation in which the checkbox is not ticked again. Toggling it
  on issues one immediate fetch and starts an interval whose first tick is due 3000 ms
  later; every tick of the interval issues one fetch and is followed by the next 3000 ms
  later. Unmounting cancels the interval and issues no request.
\<close>

theorem auto_refresh_toggle:
  "run es initial = Some w \<Longrightarrow>
   (shown w \<noteq> None \<and> autoRefresh (comp w) \<longrightarrow>
      (\<exists>w'. step (Change_checkbox False) w = Some w' \<and> \<not> autoRefresh (comp w')
          \<and> intervals w' = [] \<and> calls w' = calls w @ [GET_stack]
          \<and> (\<forall>es' w''. run es' w' = Some w'' \<and> Change_checkbox True \<notin> set es' \<longrightarrow>
                intervals w'' = [] \<and> (\<forall>i. Interval_fires i \<notin> set es'))))
   \<and> (shown w \<noteq> None \<and> \<not> autoRefresh (comp w) \<longrightarrow>
      (\<exists>w'. step (Change_checkbox True) w = Some w' \<and> autoRefresh (comp w')
          \<and> intervals w' = [(next_id w, now w + 3000)] \<and> calls w' = calls w @ [GET_stack]))
   \<and> (\<forall>i w'. step (Interval_fires i) w = Some w' \<longrightarrow>
        intervals w = [(i, now w)] \<and> intervals w' = [(i, now w + 3000)]
        \<and> calls w' = calls w @ [GET_stack])
   \<and> (phase w = Mounted \<longrightarrow>
        (\<exists>w'. step Unmount w = Some w' \<and> intervals w' = [] \<and> calls w' = calls w))"
proof -
  assume r: "run es initial = Some w"
  have ok: "timers_ok w" using initial_timers r by (rule run_timers)
  have off: "\<exists>w'. step (Change_checkbox False) w = Some w' \<and> \<not> autoRefresh (comp w')
          \<and> intervals w' = [] \<and> calls w' = calls w @ [GET_stack]
          \<and> (\<forall>es' w''. run es' w' = Some w'' \<and> Change_checkbox True \<notin> set es' \<longrightarrow>
                intervals w'' = [] \<and> (\<forall>i. Interval_fires i \<notin> set es'))"
    if sh: "shown w \<noteq> None" and a: "autoRefresh (comp w)"
  proof -
    have m: "phase w = Mounted" using sh by (auto simp: shown_def split: if_splits)
    from toggle_step [OF ok sh, of False] a m
    obtain w' where s: "step (Change_checkbox False) w = Some w'"
      and p: "\<not> autoRefresh (comp w')" "intervals w' = []" "calls w' = calls w @ [GET_stack]"
        "phase w' \<noteq> Fresh"
      by (auto simp del: step.simps)
    have "\<forall>es' w''. run es' w' = Some w'' \<and> Change_checkbox True \<notin> set es' \<longrightarrow>
                intervals w'' = [] \<and> (\<forall>i. Interval_fires i \<notin> set es')"
      using run_quiet [OF p(2) p(4)] by blast
    with s p show ?thesis by blast
  qed
  have on: "\<exists>w'. step (Change_checkbox True) w = Some w' \<and> autoRefresh (comp w')
          \<and> intervals w' = [(next_id w, now w + 3000)] \<and> calls w' = calls w @ [GET_stack]"
    if sh: "shown w \<noteq> None" and a: "\<not> autoRefresh (comp w)"
    using toggle_step [OF ok sh, of True] a by (auto simp del: step.simps)
  from off on interval_step [OF ok] unmount_step [OF ok] show ?thesis by blast
qed

theorem auto_refresh_toggle_witness:
  "map_option (\<lambda>w. (shown w \<noteq> None, autoRefresh (comp w), phase w)) (run idle_trace initial)
     = Some (True, True, Mounted)
   \<and> (\<exists>w'. map_option (step (Change_checkbox False)) (run idle_trace initial) = Some (Some w')
          \<and> intervals w' = [])
   \<and> (\<exists>w'. map_option (step Unmount) (run idle_trace initial) = Some (Some w')
          \<and> intervals w' = [])
   \<and> (\<exists>w'. map_option (step (Change_checkbox True))
              (run (idle_trace @ [Change_checkbox False]) initial) = Some (Some w')
          \<and> intervals w' = [(1, 3000)])
   \<and> map_option (\<lambda>w. (intervals w, calls w))
        (run (idle_trace @ [Advance 3000, Interval_fires 0]) initial)
      = Some ([(0, 6000)], [GET_stack, GET_stack])"
proof -
  let ?w = "the (run idle_trace initial)"
  have r: "run idle_trace initial = Some ?w" by (simp add: idle_trace_def eval_defs)
  have p: "shown ?w \<noteq> None" "autoRefresh (comp ?w)" "phase ?w = Mounted"
    by (simp_all add: idle_trace_def eval_defs)
  note h = auto_refresh_toggle [OF r]
  from h [THEN conjunct1] p
  have a: "\<exists>w'. step (Change_checkbox False) ?w = Some w' \<and> intervals w' = []"
    by blast
  from h [THEN conjunct2, THEN conjunct2, THEN conjunct2] p
  have b: "\<exists>w'. step Unmount ?w = Some w' \<and> intervals w' = []" by blast
  let ?v = "the (run (idle_trace @ [Change_checkbox False]) initial)"
  have rv: "run (idle_trace @ [Change_checkbox False]) initial = Some ?v"
    by (simp add: idle_trace_def eval_defs)
  have pv: "shown ?v \<noteq> None" "\<not> autoRefresh (comp ?v)" "next_id ?v = 1" "now ?v = 0"
    by (simp_all add: idle_trace_def eval_defs)
  from auto_refresh_toggle [OF rv, THEN conjunct2, THEN conjunct1] pv(1,2)
  have "\<exists>w'. step (Change_checkbox True) ?v = Some w'
      \<and> intervals w' = [(next_id ?v, now ?v + 3000)]"
    by blast
  then have c: "\<exists>w'. step (Change_checkbox True) ?v = Some w' \<and> intervals w' = [(1, 3000)]"
    by (simp only: pv(3,4)) simp
  let ?u = "the (run (idle_trace @ [Advance 3000]) initial)"
  let ?u' = "the (run (idle_trace @ [Advance 3000, Interval_fires 0]) initial)"
  have ru: "run (idle_trace @ [Advance 3000]) initial = Some ?u"
    by (simp add: idle_trace_def eval_defs)
  have ru': "run (idle_trace @ [Advance 3000, Interval_fires 0]) initial = Some ?u'"
    by (simp add: idle_trace_def eval_defs)
  have su: "step (Interval_fires 0) ?u = Some ?u'"
    by (simp add: idle_trace_def eval_defs)
  have pu: "now ?u = 3000" "calls ?u = [GET_stack]" by (simp_all add: idle_trace_def eval_defs)
  from auto_refresh_toggle [OF ru, THEN conjunct2, THEN conjunct2, THEN conjunct1] su
  have "intervals ?u' = [(0, now ?u + 3000)] \<and> calls ?u' = calls ?u @ [GET_stack]"
    by blast
  then have d: "intervals ?u' = [(0, 6000)] \<and> calls ?u' = [GET_stack, GET_stack]"
    by (simp only: pu) simp
  have "map_option (\<lambda>w. (shown w \<noteq> None, autoRefresh (comp w), phase w)) (Some ?w)
       = Some (True, True, Mounted)
   \<and> (\<exists>w'. map_option (step (Change_checkbox False)) (Some ?w) = Some (Some w')
          \<and> intervals w' = [])
   \<and> (\<exists>w'. map_option (step Unmount) (Some ?w) = Some (Some w') \<and> intervals w' = [])
   \<and> (\<exists>w'. map_option (step (Change_checkbox True)) (Some ?v) = Some (Some w')
          \<and> intervals w' = [(1, 3000)])
   \<and> map_option (\<lambda>w. (intervals w, calls w)) (Some ?u') = Some ([(0, 6000)], [GET_stack, GET_stack])"
    using p a b c d by (simp del: step.simps)
  then show ?thesis by (simp only: r [symmetric] rv [symmetric] ru' [symmetric])
qed

section \<open>Toasts\<close>

text \<open>
  C8 on the code: the server is down at the mount and answers \<^verbatim>\<open>success: false\<close> to
  the first poll. The first toast is shown at 0 ms, the second at 3000 ms; at 5000 ms
  the time-out of the first toast fires and clears the second one, 2000 ms after it was
  shown, while its own time-out (due at 8000 ms) is still pending.
\<close>

theorem toast_dismissed_early:
  "map_option (\<lambda>w. (now w, toast (comp w), timeouts w))
     (run [Mount, Reply 0 Rejected, Advance 3000, Interval_fires 0,
           Reply 0 (Resolved (Some (bare False)))] initial)
     = Some (3000,
             Some \<lparr>message = ''Failed to fetch stack data'', toast_type = Type_error\<rparr>,
             [5000, 8000])
   \<and> map_option (\<lambda>w. (now w, toast (comp w), timeouts w))
     (run [Mount, Reply 0 Rejected, Advance 3000, Interval_fires 0,
           Reply 0 (Resolved (Some (bare False))), Advance 2000, Timeout_fires 0] initial)
     = Some (5000, None, [8000])"
  by (simp add: eval_defs)

end
